theory Spec2Isabelle
  imports
    Main
    "HOL-Library.Word"
    "HOL-Library.Sublist"
    "HOL-Library.Char_ord"
    "HOL-Library.List_Lexorder"
begin

section \<open>The KODO storage driver (registry/storage/driver/kodo/kodo.go)\<close>

text \<open>
  The driver maps the path operations of the registry's storage-driver interface to
  calls of a remote key/value object store. The embedding has three layers: the Go
  string functions the driver uses, a model of the remote store the driver talks to,
  and the driver's own functions, translated one by one from \<^verbatim>\<open>kodo.go\<close>.
\<close>

subsection \<open>Basic types\<close>

type_synonym byte = "8 word"

text \<open>Go's \<^verbatim>\<open>int64\<close>: a 64-bit word read in two's complement (\<open>sint\<close>, \<open><s\<close>).\<close>

type_synonym int64 = "64 word"

text \<open>
  Go error values. \<open>PathNotFoundError\<close> is \<^verbatim>\<open>storagedriver.PathNotFoundError{Path}\<close>,
  \<open>ErrorInfo\<close> is \<^verbatim>\<open>*rpc.ErrorInfo\<close> with its \<^verbatim>\<open>Code\<close> and \<^verbatim>\<open>Err\<close> fields,
  \<open>EOF\<close> is \<^verbatim>\<open>io.EOF\<close>, \<open>IndexOutOfRange\<close> is the run-time panic of an index
  expression, and \<open>OtherError\<close> stands for every other error value (transport and
  local I/O failures), carrying its message.
\<close>

datatype error =
    PathNotFoundError string
  | ErrorInfo int string
  | EOF
  | IndexOutOfRange
  | OtherError string

text \<open>
  The \<^verbatim>\<open>Error()\<close> method. The message of \<^verbatim>\<open>PathNotFoundError\<close> is that of the
  registry's \<^verbatim>\<open>storagedriver\<close> package, the message of an \<^verbatim>\<open>ErrorInfo\<close> is its
  \<^verbatim>\<open>Err\<close> field.
\<close>

fun Error :: "error \<Rightarrow> string" where
  "Error (PathNotFoundError p) = ''Path not found: '' @ p"
| "Error (ErrorInfo code msg) = msg"
| "Error EOF = ''EOF''"
| "Error IndexOutOfRange = ''runtime error: index out of range''"
| "Error (OtherError msg) = msg"

subsection \<open>Go string functions used by the driver\<close>

text \<open>\<^verbatim>\<open>strings.TrimLeft(s, "/")\<close> and \<^verbatim>\<open>strings.TrimRight(s, "/")\<close>.\<close>

definition TrimLeft :: "string \<Rightarrow> string" where
  "TrimLeft s = dropWhile (\<lambda>c. c = CHR ''/'') s"

definition TrimRight :: "string \<Rightarrow> string" where
  "TrimRight s = rev (dropWhile (\<lambda>c. c = CHR ''/'') (rev s))"

text \<open>\<^verbatim>\<open>strings.HasSuffix(s, suf)\<close> and \<^verbatim>\<open>strings.TrimSuffix(s, suf)\<close>.\<close>

definition HasSuffix :: "string \<Rightarrow> string \<Rightarrow> bool" where
  "HasSuffix s suf = suffix suf s"

definition TrimSuffix :: "string \<Rightarrow> string \<Rightarrow> string" where
  "TrimSuffix s suf = (if HasSuffix s suf then take (length s - length suf) s else s)"

text \<open>
  \<^verbatim>\<open>strings.Replace(s, old, new, 1)\<close>: the first (leftmost) occurrence of \<open>old\<close> is
  replaced by \<open>new\<close>; an empty \<open>old\<close> matches at the beginning of the string.
\<close>

fun Replace1 :: "string \<Rightarrow> string \<Rightarrow> string \<Rightarrow> string" where
  "Replace1 [] old new = (if old = [] then new else [])"
| "Replace1 (c # cs) old new =
     (if prefix old (c # cs) then new @ drop (length old) (c # cs)
      else c # Replace1 cs old new)"

text \<open>\<^verbatim>\<open>strings.Index(s, sep)\<close>, with \<open>None\<close> for Go's \<open>-1\<close>.\<close>

fun Index :: "string \<Rightarrow> string \<Rightarrow> nat option" where
  "Index [] sep = (if sep = [] then Some 0 else None)"
| "Index (c # cs) sep =
     (if prefix sep (c # cs) then Some 0 else map_option Suc (Index cs sep))"

subsection \<open>Driver parameters\<close>

text \<open>The fields of \<^verbatim>\<open>DriverParameters\<close> the driver's logic reads.\<close>

record DriverParameters =
  Bucket :: string
  BaseURL :: string
  RootDirectory :: string

text \<open>
  \<^verbatim>\<open>New\<close>: the root directory loses its trailing slashes, the base URL gets one
  trailing slash when it has none.
\<close>

definition New :: "DriverParameters \<Rightarrow> DriverParameters" where
  "New params =
     (let params = params\<lparr>RootDirectory := TrimRight (RootDirectory params)\<rparr>;
          params = (if \<not> HasSuffix (BaseURL params) ''/''
                    then params\<lparr>BaseURL := BaseURL params @ ''/''\<rparr> else params)
      in params)"

text \<open>\<^verbatim>\<open>getKey\<close>: the remote key of a path.\<close>

definition getKey :: "DriverParameters \<Rightarrow> string \<Rightarrow> string" where
  "getKey d path = TrimLeft (RootDirectory d @ path)"

text \<open>\<^verbatim>\<open>isKeyNotExists\<close> and \<^verbatim>\<open>parseError\<close>: the remote status code 612.\<close>

fun isKeyNotExists :: "error \<Rightarrow> bool" where
  "isKeyNotExists (ErrorInfo code msg) = (code = 612)"
| "isKeyNotExists _ = False"

definition parseError :: "string \<Rightarrow> error \<Rightarrow> error" where
  "parseError path err = (if isKeyNotExists err then PathNotFoundError path else err)"

subsection \<open>The remote object store\<close>

text \<open>
  The SDK of the remote store is not part of the repository. Its calls are modelled
  here on a store that holds the objects as an association list from keys to byte
  contents (the first binding of a key counts). Every call is recorded in \<open>calls\<close>,
  so that a theorem can say which requests the driver issued and in which order.
  Every fallible call outside the driver (a remote request, a local file operation)
  takes the next entry of the schedule \<open>faults\<close>: \<open>Some e\<close> makes that call fail with
  \<open>e\<close> and without effect, \<open>None\<close> or an exhausted schedule lets it run.
\<close>

text \<open>
  A part of a compose request (\<^verbatim>\<open>qiniurs.Part\<close>): with \<^verbatim>\<open>Key\<close>, \<^verbatim>\<open>From\<close> and
  \<^verbatim>\<open>To\<close> set it names a byte range of a stored object, with the reader \<^verbatim>\<open>R\<close> set
  it carries local bytes.
\<close>

datatype part =
    RemoteRange string int64 int64
  | LocalBytes "byte list"

text \<open>\<^verbatim>\<open>kodo.ListItem\<close>: the key and the size of a listed object.\<close>

record ListItem =
  Key :: string
  Fsize :: int64

datatype call =
    CallList string string string nat
  | CallStat string
  | CallDelete string
  | CallMove string string
  | CallPutParts string "part list"
  | CallPutFile string "byte list"
  | CallGet string "int64 option"

record remote =
  objects :: "(string \<times> byte list) list"
  faults :: "error option list"
  calls :: "call list"

definition fault :: "remote \<Rightarrow> error option \<times> remote" where
  "fault r = (case faults r of [] \<Rightarrow> (None, r) | f # fs \<Rightarrow> (f, r\<lparr>faults := fs\<rparr>))"

definition called :: "call \<Rightarrow> remote \<Rightarrow> remote" where
  "called c r = r\<lparr>calls := calls r @ [c]\<rparr>"

definition put_object ::
  "string \<Rightarrow> byte list \<Rightarrow> (string \<times> byte list) list \<Rightarrow> (string \<times> byte list) list" where
  "put_object key bs objs = (key, bs) # filter (\<lambda>kv. fst kv \<noteq> key) objs"

definition del_object ::
  "string \<Rightarrow> (string \<times> byte list) list \<Rightarrow> (string \<times> byte list) list" where
  "del_object key objs = filter (\<lambda>kv. fst kv \<noteq> key) objs"

text \<open>The content stored under a key, if any.\<close>

definition stored :: "remote \<Rightarrow> string \<Rightarrow> byte list option" where
  "stored r k = map_of (objects r) k"

definition fsize :: "(string \<times> byte list) list \<Rightarrow> string \<Rightarrow> int64" where
  "fsize objs k = (case map_of objs k of None \<Rightarrow> 0 | Some c \<Rightarrow> of_nat (length c))"

text \<open>
  Modelled from the spec: the remote listing call ("list-with-prefix-and-delimiter-and-
  continuation"). The spec leaves the pagination protocol of the service open; the
  model takes the usual one of a key/value store. The keys that start with the prefix
  are listed in ascending (bytewise lexicographic) order, after the marker when one is
  given. With a delimiter, the keys that contain the delimiter after the prefix are
  rolled up into one common prefix per group. A page holds at most \<open>limit\<close> entries;
  the marker returned is the last key the page covers, or empty when nothing is left.
\<close>

datatype entry = Item string | CommonPrefix string

definition entry_of :: "string \<Rightarrow> string \<Rightarrow> string \<Rightarrow> entry" where
  "entry_of pre delim k =
     (if delim = [] then Item k
      else case Index (drop (length pre) k) delim of
             None \<Rightarrow> Item k
           | Some i \<Rightarrow> CommonPrefix (take (length pre + i + length delim) k))"

fun rollup :: "(string \<Rightarrow> entry) \<Rightarrow> string list \<Rightarrow> (entry \<times> string) list" where
  "rollup f [] = []"
| "rollup f (k # ks) =
     (case rollup f ks of
        [] \<Rightarrow> [(f k, k)]
      | (e, l) # gs \<Rightarrow> if f k = e then (e, l) # gs else (f k, k) # (e, l) # gs)"

definition matching :: "(string \<times> byte list) list \<Rightarrow> string \<Rightarrow> string \<Rightarrow> string list" where
  "matching objs pre marker =
     sort (remdups (filter (\<lambda>k. prefix pre k \<and> (marker = [] \<or> marker < k)) (map fst objs)))"

fun item_of :: "(string \<times> byte list) list \<Rightarrow> entry \<Rightarrow> ListItem list" where
  "item_of objs (Item k) = [\<lparr>Key = k, Fsize = fsize objs k\<rparr>]"
| "item_of objs (CommonPrefix p) = []"

fun prefix_of :: "entry \<Rightarrow> string list" where
  "prefix_of (Item k) = []"
| "prefix_of (CommonPrefix p) = [p]"

definition list_page ::
  "(string \<times> byte list) list \<Rightarrow> string \<Rightarrow> string \<Rightarrow> string \<Rightarrow> nat
     \<Rightarrow> ListItem list \<times> string list \<times> string" where
  "list_page objs pre delim marker limit =
     (let gs = rollup (entry_of pre delim) (matching objs pre marker);
          page = take limit gs
      in (concat (map (\<lambda>g. item_of objs (fst g)) page),
          concat (map (\<lambda>g. prefix_of (fst g)) page),
          if length gs \<le> limit \<or> page = [] then [] else snd (last page)))"

text \<open>
  \<^verbatim>\<open>Bucket.List\<close> of the SDK: it returns \<^verbatim>\<open>io.EOF\<close> together with the last page,
  the one whose marker is empty.
\<close>

definition bucket_List ::
  "string \<Rightarrow> string \<Rightarrow> string \<Rightarrow> nat \<Rightarrow> remote
     \<Rightarrow> (ListItem list \<times> string list \<times> string \<times> error option) \<times> remote" where
  "bucket_List pre delim marker limit r =
     (case fault (called (CallList pre delim marker limit) r) of
        (Some e, r') \<Rightarrow> (([], [], [], Some e), r')
      | (None, r') \<Rightarrow>
          (case list_page (objects r') pre delim marker limit of
             (items, dirs, markerOut) \<Rightarrow>
               ((items, dirs, markerOut, if markerOut = [] then Some EOF else None), r')))"

text \<open>
  Modelled from the spec: the remote stat, delete and move calls. A key that does
  not exist is reported with the status code 612 ("the remote API's specific
  not-found status code"); a move onto an existing key is refused (code 614).
\<close>

definition bucket_Stat :: "string \<Rightarrow> remote \<Rightarrow> (error + int64) \<times> remote" where
  "bucket_Stat key r =
     (case fault (called (CallStat key) r) of
        (Some e, r') \<Rightarrow> (Inl e, r')
      | (None, r') \<Rightarrow>
          (case map_of (objects r') key of
             None \<Rightarrow> (Inl (ErrorInfo 612 ''no such file or directory''), r')
           | Some c \<Rightarrow> (Inr (of_nat (length c)), r')))"

definition bucket_Delete :: "string \<Rightarrow> remote \<Rightarrow> error option \<times> remote" where
  "bucket_Delete key r =
     (case fault (called (CallDelete key) r) of
        (Some e, r') \<Rightarrow> (Some e, r')
      | (None, r') \<Rightarrow>
          (case map_of (objects r') key of
             None \<Rightarrow> (Some (ErrorInfo 612 ''no such file or directory''), r')
           | Some c \<Rightarrow> (None, r'\<lparr>objects := del_object key (objects r')\<rparr>)))"

definition bucket_Move :: "string \<Rightarrow> string \<Rightarrow> remote \<Rightarrow> error option \<times> remote" where
  "bucket_Move src dst r =
     (case fault (called (CallMove src dst) r) of
        (Some e, r') \<Rightarrow> (Some e, r')
      | (None, r') \<Rightarrow>
          (case map_of (objects r') src of
             None \<Rightarrow> (Some (ErrorInfo 612 ''no such file or directory''), r')
           | Some c \<Rightarrow>
               if map_of (objects r') dst \<noteq> None
               then (Some (ErrorInfo 614 ''file exists''), r')
               else (None, r'\<lparr>objects := put_object dst c (del_object src (objects r'))\<rparr>)))"

text \<open>
  Modelled from the spec: compose-from-parts, "a remote API primitive that builds a
  new object by concatenating a list of byte ranges from existing objects and/or
  freshly supplied byte buffers". A range part takes the bytes \<open>[start, end)\<close> of the
  stored object, \<open>end = -1\<close> meaning "to the end of the object"; the request fails as a
  whole when a part names a key that does not exist. The object at the target key is
  replaced by the concatenation.
\<close>

fun part_bytes :: "(string \<times> byte list) list \<Rightarrow> part \<Rightarrow> byte list option" where
  "part_bytes objs (LocalBytes bs) = Some bs"
| "part_bytes objs (RemoteRange k from to) =
     (case map_of objs k of
        None \<Rightarrow> None
      | Some c \<Rightarrow>
          Some (if to = - 1 then drop (nat (sint from)) c
                else take (nat (sint to) - nat (sint from)) (drop (nat (sint from)) c)))"

fun compose :: "(string \<times> byte list) list \<Rightarrow> part list \<Rightarrow> byte list option" where
  "compose objs [] = Some []"
| "compose objs (p # ps) =
     (case part_bytes objs p of
        None \<Rightarrow> None
      | Some b \<Rightarrow> map_option (\<lambda>bs. b @ bs) (compose objs ps))"

definition PutParts :: "string \<Rightarrow> part list \<Rightarrow> remote \<Rightarrow> error option \<times> remote" where
  "PutParts key parts r =
     (case fault (called (CallPutParts key parts) r) of
        (Some e, r') \<Rightarrow> (Some e, r')
      | (None, r') \<Rightarrow>
          (case compose (objects r') parts of
             None \<Rightarrow> (Some (ErrorInfo 612 ''no such file or directory''), r')
           | Some bs \<Rightarrow> (None, r'\<lparr>objects := put_object key bs (objects r')\<rparr>)))"

text \<open>Modelled from the spec: the whole-object upload ("upload the buffered bytes as a whole new object").\<close>

definition bucket_PutFile :: "string \<Rightarrow> byte list \<Rightarrow> remote \<Rightarrow> error option \<times> remote" where
  "bucket_PutFile key bs r =
     (case fault (called (CallPutFile key bs) r) of
        (Some e, r') \<Rightarrow> (Some e, r')
      | (None, r') \<Rightarrow> (None, r'\<lparr>objects := put_object key bs (objects r')\<rparr>))"

text \<open>
  Modelled from the spec: the HTTP download of an object (\<^verbatim>\<open>client.Do\<close> on a GET
  request for the signed URL), with an optional \<^verbatim>\<open>Range: bytes=n-\<close> header. The URL
  is the base URL followed by the key, and it names the object stored under that key.
  The answer is the status code and the body: 404 for a key that does not exist.
\<close>

definition client_Do ::
  "string \<Rightarrow> string \<Rightarrow> int64 option \<Rightarrow> remote \<Rightarrow> (error + nat \<times> byte list) \<times> remote" where
  "client_Do baseURL key rng r =
     (case fault (called (CallGet (baseURL @ key) rng) r) of
        (Some e, r') \<Rightarrow> (Inl e, r')
      | (None, r') \<Rightarrow>
          (case map_of (objects r') key of
             None \<Rightarrow> (Inr (404, []), r')
           | Some c \<Rightarrow>
               (case rng of
                  None \<Rightarrow> (Inr (200, c), r')
                | Some off \<Rightarrow> (Inr (206, drop (nat (sint off)) c), r'))))"

text \<open>A fallible local call (temporary file, copy, seek, request construction).\<close>

definition local_call :: "remote \<Rightarrow> error option \<times> remote" where
  "local_call r = fault r"

subsection \<open>The driver\<close>

definition listMax :: nat where
  "listMax = 1000"

text \<open>
  \<^verbatim>\<open>storagedriver.FileInfoFields\<close>, without the modification time (time stamps are
  not modelled).
\<close>

record FileInfoFields =
  Path :: string
  Size :: int64
  IsDir :: bool

text \<open>
  \<^verbatim>\<open>Stat\<close>: one listing request with the key as prefix, no delimiter and limit 1. The
  path is a directory when the first key listed is not the key itself.
\<close>

definition Stat :: "DriverParameters \<Rightarrow> string \<Rightarrow> remote \<Rightarrow> (error + FileInfoFields) \<times> remote" where
  "Stat d path r =
     (case bucket_List (getKey d path) [] [] 1 r of
        ((items, dirs, marker, err), r') \<Rightarrow>
          if err \<noteq> None \<and> err \<noteq> Some EOF then (Inl (the err), r')
          else (case items of
                  [] \<Rightarrow> (Inl (PathNotFoundError path), r')
                | item # rest \<Rightarrow>
                    (let fi = \<lparr>Path = path, Size = 0, IsDir = False\<rparr>;
                         fi = (if getKey d path \<noteq> Key item then fi\<lparr>IsDir := True\<rparr> else fi);
                         fi = (if \<not> IsDir fi then fi\<lparr>Size := Fsize item\<rparr> else fi)
                     in (Inr fi, r'))))"

text \<open>
  \<^verbatim>\<open>ReadStream\<close>: the result is the content the returned reader yields. The request
  is built (\<^verbatim>\<open>http.NewRequest\<close>, a fallible local call) and sent only when the offset
  is below the size the remote stat reports.
\<close>

definition ReadStream :: "DriverParameters \<Rightarrow> string \<Rightarrow> int64 \<Rightarrow> remote \<Rightarrow> (error + byte list) \<times> remote" where
  "ReadStream d path offset r =
     (case bucket_Stat (getKey d path) r of
        (Inl err, r1) \<Rightarrow> (Inl (parseError path err), r1)
      | (Inr fsz, r1) \<Rightarrow>
          if fsz \<le>s offset then (Inr [], r1)
          else (case local_call r1 of
                  (Some e, r2) \<Rightarrow> (Inl e, r2)
                | (None, r2) \<Rightarrow>
                    (case client_Do (BaseURL d) (getKey d path)
                            (if 0 <s offset then Some offset else None) r2 of
                       (Inl e, r3) \<Rightarrow> (Inl e, r3)
                     | (Inr (status, body), r3) \<Rightarrow>
                         if status = 404 then (Inl (PathNotFoundError path), r3)
                         else (Inr body, r3))))"

text \<open>
  The part sequence \<^verbatim>\<open>WriteStream\<close> builds for range emulation (the block under
  \<^verbatim>\<open>writeWholeFile == false\<close>): \<open>sz\<close> is \<^verbatim>\<open>stat.Size()\<close>, \<open>tmpF\<close> the buffered
  content of the reader, \<open>written\<close> its length, \<open>path\<close> the key.
\<close>

definition WriteStream_parts :: "int64 \<Rightarrow> int64 \<Rightarrow> int64 \<Rightarrow> string \<Rightarrow> byte list \<Rightarrow> part list" where
  "WriteStream_parts offset written sz path tmpF =
     (if offset = 0 then
        [LocalBytes tmpF] @ (if written <s sz then [RemoteRange path written (- 1)] else [])
      else if offset = sz then
        [RemoteRange path 0 (- 1), LocalBytes tmpF]
      else if offset <s sz then
        [RemoteRange path 0 offset, LocalBytes tmpF] @
        (let appendSize = written + offset
         in if appendSize <s sz then [RemoteRange path appendSize (- 1)] else [])
      else if sz <s offset then
        [RemoteRange path 0 (- 1),
         LocalBytes (replicate (nat (sint (offset - sz))) 0),
         LocalBytes tmpF]
      else [])"

text \<open>
  \<^verbatim>\<open>WriteStream\<close>: \<open>reader\<close> is the content of the incoming stream. The lookup is the
  driver's own \<open>Stat\<close>; its error is taken for "not found" when its message equals that
  of \<^verbatim>\<open>PathNotFoundError{Path: path}\<close>. The three local calls are the creation of
  the temporary file, the copy of the stream into it, and the seek back to its start.
  An error result stands for Go's \<^verbatim>\<open>(0, err)\<close>.
\<close>

definition WriteStream :: "DriverParameters \<Rightarrow> string \<Rightarrow> int64 \<Rightarrow> byte list \<Rightarrow> remote \<Rightarrow> (error + int64) \<times> remote" where
  "WriteStream d path offset reader r =
     (case Stat d path r of
        (st, r1) \<Rightarrow>
          (case (case st of
                   Inl err \<Rightarrow> if Error err = Error (PathNotFoundError path) then Inr None else Inl err
                 | Inr fi \<Rightarrow> Inr (Some fi)) of
             Inl err \<Rightarrow> (Inl err, r1)
           | Inr stat \<Rightarrow>
               (let key = getKey d path
                in case local_call r1 of
                     (Some e, r2) \<Rightarrow> (Inl e, r2)
                   | (None, r2) \<Rightarrow>
                       (case local_call r2 of
                          (Some e, r3) \<Rightarrow> (Inl e, r3)
                        | (None, r3) \<Rightarrow>
                            (let written = of_nat (length reader)
                             in case local_call r3 of
                                  (Some e, r4) \<Rightarrow> (Inl e, r4)
                                | (None, r4) \<Rightarrow>
                                    (case stat of
                                       Some fi \<Rightarrow>
                                         (case PutParts key
                                                 (WriteStream_parts offset written (Size fi) key reader) r4 of
                                            (Some e, r5) \<Rightarrow> (Inl e, r5)
                                          | (None, r5) \<Rightarrow> (Inr written, r5))
                                     | None \<Rightarrow>
                                         (case bucket_PutFile key reader r4 of
                                            (Some e, r5) \<Rightarrow> (Inl e, r5)
                                          | (None, r5) \<Rightarrow> (Inr written, r5))))))))"

text \<open>
  \<^verbatim>\<open>Move\<close>: stat of the source, delete of the destination (a missing destination is
  not an error), then the remote move.
\<close>

definition Move :: "DriverParameters \<Rightarrow> string \<Rightarrow> string \<Rightarrow> remote \<Rightarrow> error option \<times> remote" where
  "Move d sourcePath destPath r =
     (case bucket_Stat (getKey d sourcePath) r of
        (Inl err, r1) \<Rightarrow> (Some (parseError sourcePath err), r1)
      | (Inr fsz, r1) \<Rightarrow>
          (case bucket_Delete (getKey d destPath) r1 of
             (err, r2) \<Rightarrow>
               if err \<noteq> None \<and> \<not> isKeyNotExists (the err) then (err, r2)
               else (case bucket_Move (getKey d sourcePath) (getKey d destPath) r2 of
                       (err, r3) \<Rightarrow> (map_option (parseError sourcePath) err, r3))))"

text \<open>
  \<^verbatim>\<open>Delete\<close>: the inner loop over the items of one page, and the outer loop over
  the pages. \<open>cnt\<close> counts the items seen so far.
\<close>

fun delete_items :: "ListItem list \<Rightarrow> remote \<Rightarrow> error option \<times> remote" where
  "delete_items [] r = (None, r)"
| "delete_items (item # items) r =
     (case bucket_Delete (Key item) r of
        (err, r') \<Rightarrow>
          if err \<noteq> None \<and> \<not> isKeyNotExists (the err) then (err, r')
          else delete_items items r')"

subsection \<open>Progress of the listing marker, and termination of the page loops\<close>

lemma rollup_mem: "(e, l) \<in> set (rollup f ks) \<Longrightarrow> l \<in> set ks \<and> e = f l"
  by (induction ks arbitrary: e l) (auto split: list.splits if_splits prod.splits)

lemma set_matching:
  "set (matching objs pre marker) =
     {k \<in> fst ` set objs. prefix pre k \<and> (marker = [] \<or> marker < k)}"
  by (auto simp: matching_def)

lemma list_page_marker:
  assumes "list_page objs pre delim marker limit = (items, dirs, m)" and "m \<noteq> []"
  shows "m \<in> set (matching objs pre marker)"
proof -
  define gs where "gs = rollup (entry_of pre delim) (matching objs pre marker)"
  from assms have m: "m = snd (last (take limit gs))" and ne: "take limit gs \<noteq> []"
    by (auto simp: list_page_def Let_def gs_def split: if_splits)
  from ne have "last (take limit gs) \<in> set gs"
    using in_set_takeD last_in_set by metis
  then have "(fst (last (take limit gs)), m) \<in> set gs" by (simp add: m)
  then show ?thesis unfolding gs_def by (auto dest: rollup_mem)
qed

lemma fault_objects: "fault r = (f, r') \<Longrightarrow> objects r' = objects r"
  by (auto simp: fault_def split: list.splits)

lemma bucket_List_objects:
  "bucket_List pre delim marker limit r = (res, r') \<Longrightarrow> objects r' = objects r"
  by (auto simp: bucket_List_def called_def split: prod.splits option.splits dest!: fault_objects)

lemma bucket_List_marker:
  assumes "bucket_List pre delim marker limit r = ((items, dirs, m, err), r')" and "m \<noteq> []"
  shows "m \<in> fst ` set (objects r) \<and> marker < m \<and> prefix pre m"
proof -
  from assms obtain r1 where f: "fault (called (CallList pre delim marker limit) r) = (None, r1)"
    and lp: "list_page (objects r1) pre delim marker limit = (items, dirs, m)"
    by (auto simp: bucket_List_def split: prod.splits option.splits)
  from f have "objects r1 = objects r" by (auto dest!: fault_objects simp: called_def)
  with list_page_marker[OF lp assms(2)] have "m \<in> set (matching (objects r) pre marker)" by simp
  with assms(2) show ?thesis by (cases m) (auto simp: set_matching)
qed

text \<open>
  \<^verbatim>\<open>List\<close>: the loop over the result pages. Every item key and every common prefix
  (without its trailing slash) has the first occurrence of the root key replaced by
  \<open>rootPrefix\<close>; the files come before the directories in the result.
\<close>

function List_loop ::
  "DriverParameters \<Rightarrow> string \<Rightarrow> string \<Rightarrow> string \<Rightarrow> string list \<Rightarrow> string list \<Rightarrow> remote
     \<Rightarrow> (error + string list) \<times> remote" where
  "List_loop d path rootPrefix marker files directories r =
     (case bucket_List (getKey d path) ''/'' marker listMax r of
        ((items, dirs, marker', err), r') \<Rightarrow>
          if err \<noteq> None \<and> err \<noteq> Some EOF then (Inl (the err), r')
          else (let files = files @ map (\<lambda>item. Replace1 (Key item) (getKey d []) rootPrefix) items;
                    directories = directories @
                      map (\<lambda>p. Replace1 (TrimSuffix p ''/'') (getKey d []) rootPrefix) dirs
                in if marker' = [] then (Inr (files @ directories), r')
                   else List_loop d path rootPrefix marker' files directories r'))"
  by pat_completeness auto
lemma marker_progress:
  fixes objs :: "(string \<times> byte list) list"
  assumes "m \<in> fst ` set objs" "marker < m" "keys' \<subseteq> fst ` set objs"
  shows "card {k \<in> keys'. m < k} < card {k \<in> fst ` set objs. marker < k}"
proof (rule psubset_card_mono)
  show "finite {k \<in> fst ` set objs. marker < k}" by simp
  have sub: "{k \<in> keys'. m < k} \<subseteq> {k \<in> fst ` set objs. marker < k}"
  proof
    fix k assume "k \<in> {k \<in> keys'. m < k}"
    then have "k \<in> keys'" "m < k" by auto
    with assms(2,3) have "k \<in> fst ` set objs" "marker < k" by (auto intro: less_trans)
    then show "k \<in> {k \<in> fst ` set objs. marker < k}" by simp
  qed
  have "m \<in> {k \<in> fst ` set objs. marker < k}" using assms(1,2) by simp
  moreover have "m \<notin> {k \<in> keys'. m < k}" by simp
  ultimately show "{k \<in> keys'. m < k} \<subset> {k \<in> fst ` set objs. marker < k}"
    using sub by blast
qed

lemma List_measure:
  assumes "bucket_List pre delim marker limit r = ((items, dirs, m, err), r')" and "m \<noteq> []"
  shows "card {k \<in> fst ` set (objects r'). m < k} < card {k \<in> fst ` set (objects r). marker < k}"
  using bucket_List_marker[OF assms] bucket_List_objects[OF assms(1)]
  by (intro marker_progress) auto

termination List_loop
proof (relation "measure (\<lambda>(d, path, rootPrefix, marker, files, directories, r).
          card {k \<in> fst ` set (objects r). marker < k})", goal_cases)
  case 1
  show ?case by simp
next
  case (2 d path rootPrefix marker files directories r x y xa ya xb yb xc yaa xd xe)
  then have "bucket_List (getKey d path) ''/'' marker listMax r = ((xa, xb, xc, yaa), y)"
    by simp
  moreover have "xc \<noteq> []" using 2 by simp
  ultimately show ?case using List_measure by simp
qed


declare List_loop.simps [simp del]

text \<open>
  The index expression \<^verbatim>\<open>path[len(path)-1]\<close> panics on the empty path.
\<close>

definition List :: "DriverParameters \<Rightarrow> string \<Rightarrow> remote \<Rightarrow> (error + string list) \<times> remote" where
  "List d path r =
     (if path = [] then (Inl IndexOutOfRange, r)
      else (let path = (if path \<noteq> ''/'' \<and> last path \<noteq> CHR ''/'' then path @ ''/'' else path);
                rootPrefix = (if getKey d [] = [] then ''/'' else [])
            in List_loop d path rootPrefix [] [] [] r))"

lemma bucket_Delete_keys:
  "bucket_Delete key r = (e, r') \<Longrightarrow> fst ` set (objects r') \<subseteq> fst ` set (objects r)"
  by (auto simp: bucket_Delete_def called_def del_object_def
      split: prod.splits option.splits dest!: fault_objects)

lemma delete_items_keys:
  "delete_items items r = (e, r') \<Longrightarrow> fst ` set (objects r') \<subseteq> fst ` set (objects r)"
proof (induction items arbitrary: r)
  case Nil
  then show ?case by simp
next
  case (Cons item items)
  obtain e1 r1 where d: "bucket_Delete (Key item) r = (e1, r1)" by (cases "bucket_Delete (Key item) r")
  show ?case
  proof (cases "e1 \<noteq> None \<and> \<not> isKeyNotExists (the e1)")
    case True
    with Cons.prems d have "r' = r1" by simp
    with bucket_Delete_keys[OF d] show ?thesis by simp
  next
    case False
    with Cons.prems d have "delete_items items r1 = (e, r')" by auto
    from Cons.IH[OF this] bucket_Delete_keys[OF d] show ?thesis by blast
  qed
qed

text \<open>
  The loop of \<^verbatim>\<open>Delete\<close> over the result pages; \<open>cnt\<close> is a Go \<^verbatim>\<open>int\<close>, bounded
  by the number of keys listed.
\<close>

function Delete_loop ::
  "DriverParameters \<Rightarrow> string \<Rightarrow> string \<Rightarrow> nat \<Rightarrow> remote \<Rightarrow> error option \<times> remote" where
  "Delete_loop d path marker cnt r =
     (case bucket_List (getKey d path) [] marker listMax r of
        ((items, dirs, marker', err), r1) \<Rightarrow>
          if err \<noteq> None \<and> err \<noteq> Some EOF then (err, r1)
          else (let cnt = cnt + length items
                in if cnt = 0 then (Some (PathNotFoundError path), r1)
                   else (case delete_items items r1 of
                           (err, r2) \<Rightarrow>
                             if err \<noteq> None then (err, r2)
                             else if marker' = [] then (None, r2)
                             else Delete_loop d path marker' cnt r2)))"
  by pat_completeness auto

lemma Delete_measure:
  assumes "bucket_List pre delim marker limit r = ((items, dirs, m, err), r1)" and "m \<noteq> []"
    and "delete_items items r1 = (e, r2)"
  shows "card {k \<in> fst ` set (objects r2). m < k} < card {k \<in> fst ` set (objects r). marker < k}"
  using bucket_List_marker[OF assms(1,2)] bucket_List_objects[OF assms(1)]
    delete_items_keys[OF assms(3)]
  by (intro marker_progress) auto

termination Delete_loop
proof (relation "measure (\<lambda>(d, path, marker, cnt, r).
          card {k \<in> fst ` set (objects r). marker < k})", goal_cases)
  case 1
  show ?case by simp
next
  case (2 d path marker cnt r x r1 items y dirs z m err cnt' e r2)
  then have "bucket_List (getKey d path) [] marker listMax r = ((items, dirs, m, err), r1)"
    and "delete_items items r1 = (e, r2)"
    by simp_all
  moreover have "m \<noteq> []" using 2 by simp
  ultimately show ?case using Delete_measure by simp
qed

declare Delete_loop.simps [simp del]

definition Delete :: "DriverParameters \<Rightarrow> string \<Rightarrow> remote \<Rightarrow> error option \<times> remote" where
  "Delete d path r = Delete_loop d path [] 0 r"

text \<open>
  Modelled from the spec: the host's path syntax (\<^verbatim>\<open>storagedriver.PathRegexp\<close>, which
  the driver's test applies to listed entries, is not among the sources): a path has a
  "leading \<^verbatim>\<open>/\<close>, no trailing \<^verbatim>\<open>/\<close>", and, as a sequence of components that each
  start with \<^verbatim>\<open>/\<close>, no empty component. The character class of the components plays
  no role here.
\<close>

definition path_ok :: "string \<Rightarrow> bool" where
  "path_ok p \<longleftrightarrow>
     p \<noteq> [] \<and> hd p = CHR ''/'' \<and> last p \<noteq> CHR ''/'' \<and> \<not> sublist ''//'' p"

text \<open>A driver for the examples: the root directory \<^verbatim>\<open>/reg/\<close> becomes the key prefix \<^verbatim>\<open>reg\<close>.\<close>

definition example_driver :: DriverParameters where
  "example_driver =
     New \<lparr>Bucket = ''registry'', BaseURL = ''http://kodo.test'', RootDirectory = ''/reg/''\<rparr>"

section \<open>Properties\<close>

subsection \<open>Calls that run without a fault\<close>

lemma prefix_le: "prefix a b \<Longrightarrow> a \<le> (b :: string)"
proof (induction a arbitrary: b)
  case Nil
  then show ?case by simp
next
  case (Cons x xs)
  then obtain ys where "b = x # ys" "prefix xs ys" by (cases b) auto
  with Cons.IH show ?case by simp
qed

lemma fault_none: "faults r = [] \<Longrightarrow> fault r = (None, r)"
  by (simp add: fault_def)

lemma faults_called [simp]: "faults (called c r) = faults r"
  by (simp add: called_def)

lemma objects_called [simp]: "objects (called c r) = objects r"
  by (simp add: called_def)

lemma calls_called [simp]: "calls (called c r) = calls r @ [c]"
  by (simp add: called_def)

lemma sorted_matching: "sorted (matching objs pre marker)"
  by (simp add: matching_def)

lemma distinct_matching: "distinct (matching objs pre marker)"
  by (simp add: matching_def)

lemma entry_of_nodelim: "entry_of pre [] = Item"
  by (rule ext) (simp add: entry_of_def)

lemma rollup_Item: "distinct ks \<Longrightarrow> rollup Item ks = map (\<lambda>k. (Item k, k)) ks"
proof (induction ks)
  case Nil
  then show ?case by simp
next
  case (Cons k ks)
  then show ?case by (cases ks) auto
qed

lemma items_of_Items:
  "concat (map (\<lambda>g. item_of objs (fst g)) (map (\<lambda>k. (Item k, k)) xs)) =
     map (\<lambda>k. \<lparr>Key = k, Fsize = fsize objs k\<rparr>) xs"
  by (induction xs) simp_all

lemma prefixes_of_Items:
  "concat (map (\<lambda>g. prefix_of (fst g)) (map (\<lambda>k. (Item k, k)) xs)) = []"
  by (induction xs) simp_all

lemma list_page_nodelim:
  "list_page objs pre [] marker limit =
     (map (\<lambda>k. \<lparr>Key = k, Fsize = fsize objs k\<rparr>) (take limit (matching objs pre marker)),
      [],
      if length (matching objs pre marker) \<le> limit \<or> take limit (matching objs pre marker) = []
      then [] else last (take limit (matching objs pre marker)))"
proof -
  let ?ks = "matching objs pre marker"
  have r: "rollup (entry_of pre []) ?ks = map (\<lambda>k. (Item k, k)) ?ks"
    by (simp add: entry_of_nodelim rollup_Item distinct_matching)
  have t: "take limit (map (\<lambda>k. (Item k, k)) ?ks) = map (\<lambda>k. (Item k, k)) (take limit ?ks)"
    by (simp add: take_map)
  have l: "take limit ?ks \<noteq> [] \<Longrightarrow>
      snd (last (map (\<lambda>k. (Item k, k)) (take limit ?ks))) = last (take limit ?ks)"
    by (simp add: last_map)
  show ?thesis
    unfolding list_page_def Let_def r t items_of_Items prefixes_of_Items
    using l by auto
qed

lemma bucket_List_nofault:
  "faults r = [] \<Longrightarrow>
   bucket_List pre delim marker limit r =
     (case list_page (objects r) pre delim marker limit of
        (items, dirs, m) \<Rightarrow> ((items, dirs, m, if m = [] then Some EOF else None),
                              called (CallList pre delim marker limit) r))"
  by (simp add: bucket_List_def fault_none split: prod.splits)

lemma Stat_nofault:
  assumes "faults r = []"
  shows "Stat d path r =
     (case matching (objects r) (getKey d path) [] of
        [] \<Rightarrow> Inl (PathNotFoundError path)
      | k # ks \<Rightarrow> Inr \<lparr>Path = path,
                       Size = (if k = getKey d path then fsize (objects r) k else 0),
                       IsDir = (k \<noteq> getKey d path)\<rparr>,
      called (CallList (getKey d path) [] [] 1 ) r)"
  by (cases "matching (objects r) (getKey d path) []")
     (auto simp: Stat_def bucket_List_nofault[OF assms] list_page_nodelim Let_def)

lemma matching_head:
  assumes "K \<in> fst ` set objs"
  shows "\<exists>rest. matching objs K [] = K # rest"
proof -
  let ?ks = "matching objs K []"
  have mem: "K \<in> set ?ks" using assms by (auto simp: set_matching)
  then obtain a rest where ks: "?ks = a # rest" by (cases ?ks) auto
  have "a \<le> K" using sorted_matching[of objs K "[]"] mem ks by auto
  moreover have "prefix K a" using ks set_matching[of objs K "[]"] by auto
  ultimately have "a = K" using prefix_le by fastforce
  with ks show ?thesis by simp
qed

lemma Stat_file:
  assumes "faults r = []" and "map_of (objects r) (getKey d path) = Some old"
  shows "Stat d path r =
           (Inr \<lparr>Path = path, Size = of_nat (length old), IsDir = False\<rparr>,
            called (CallList (getKey d path) [] [] 1) r)"
proof -
  from assms(2) have "getKey d path \<in> fst ` set (objects r)"
    by (metis map_of_eq_None_iff option.distinct(1))
  from matching_head[OF this] obtain rest where
    "matching (objects r) (getKey d path) [] = getKey d path # rest" by blast
  then show ?thesis using assms by (simp add: Stat_nofault fsize_def)
qed


subsection \<open>64-bit arithmetic within range\<close>

lemma sint_of_nat64: "n < 2 ^ 63 \<Longrightarrow> sint (of_nat n :: int64) = int n"
proof -
  assume "n < 2 ^ 63"
  then have "int n < 2 ^ 63" by (metis of_nat_less_numeral_power_cancel_iff)
  then show ?thesis
    by (simp add: signed_of_nat signed_take_bit_int_eq_self)
qed

lemma sint_add64:
  fixes a b :: int64
  assumes "- (2 ^ 63) \<le> sint a + sint b" and "sint a + sint b < 2 ^ 63"
  shows "sint (a + b) = sint a + sint b"
  using assms by (simp add: sint_word_ariths signed_take_bit_int_eq_self)

lemma sint_sub64:
  fixes a b :: int64
  assumes "- (2 ^ 63) \<le> sint a - sint b" and "sint a - sint b < 2 ^ 63"
  shows "sint (a - b) = sint a - sint b"
  using assms by (simp add: sint_word_ariths signed_take_bit_int_eq_self)

lemma parts_middle:
  assumes "n < 2 ^ 63" and "0 < sint offset" and "sint offset < int n"
    and "w + nat (sint offset) < 2 ^ 63"
  shows "WriteStream_parts offset (of_nat w) (of_nat n) K bs =
           [RemoteRange K 0 offset, LocalBytes bs] @
           (if nat (sint offset) + w < n then [RemoteRange K (of_nat w + offset) (- 1)] else [])"
proof -
  have sn: "sint (of_nat n :: int64) = int n" using assms(1) by (rule sint_of_nat64)
  have w: "w < 2 ^ 63" using assms(4) by simp
  have sw: "sint (of_nat w :: int64) = int w" using w by (rule sint_of_nat64)
  have "int (w + nat (sint offset)) < 2 ^ 63" using assms(4)
    by (metis of_nat_less_numeral_power_cancel_iff)
  then have sum: "sint (of_nat w + offset) = int w + sint offset"
    using assms(2) sw by (intro sint_add64[THEN trans]) auto
  have n0: "offset \<noteq> 0" using assms(2) by auto
  have n1: "offset \<noteq> of_nat n" using assms(3) sn by auto
  have lt: "offset <s of_nat n" using assms(3) sn by (simp add: word_sless_alt)
  have ap: "(of_nat w + offset <s (of_nat n :: int64)) = (nat (sint offset) + w < n)"
    using assms(2) by (simp add: word_sless_alt sum sn) linarith
  show ?thesis
    unfolding WriteStream_parts_def Let_def using n0 n1 lt ap by simp
qed


subsection \<open>WriteStream on an existing object\<close>

lemma local_call_none: "faults r = [] \<Longrightarrow> local_call r = (None, r)"
  by (simp add: local_call_def fault_none)

lemma PutParts_nofault:
  assumes "faults r = []" and "compose (objects r) parts = Some bs"
  shows "PutParts key parts r =
           (None, (called (CallPutParts key parts) r)\<lparr>objects := put_object key bs (objects r)\<rparr>)"
  using assms by (simp add: PutParts_def fault_none)

lemma PutParts_nofault_fail:
  assumes "faults r = []" and "compose (objects r) parts = None"
  shows "PutParts key parts r =
           (Some (ErrorInfo 612 ''no such file or directory''), called (CallPutParts key parts) r)"
  using assms by (simp add: PutParts_def fault_none)

lemma map_of_put_object [simp]: "map_of (put_object key bs objs) key = Some bs"
  by (simp add: put_object_def)

lemma WriteStream_existing:
  assumes "faults r = []" and "stored r (getKey d path) = Some old"
    and "compose (objects r)
           (WriteStream_parts offset (of_nat (length reader)) (of_nat (length old))
              (getKey d path) reader) = Some new"
  shows "WriteStream d path offset reader r =
           (Inr (of_nat (length reader)),
            (called (CallPutParts (getKey d path)
                      (WriteStream_parts offset (of_nat (length reader)) (of_nat (length old))
                         (getKey d path) reader))
               (called (CallList (getKey d path) [] [] 1) r))
            \<lparr>objects := put_object (getKey d path) new (objects r)\<rparr>)"
  using assms
  by (simp add: WriteStream_def Stat_file stored_def local_call_none PutParts_nofault Let_def)

text \<open>
  Claim C1. A write at an offset strictly inside an existing object
  (\<open>0 < offset < existingSize\<close>) issues one compose request with the parts
  \<open>[RemoteRange(key, 0, offset), LocalBytes(incoming)]\<close>, followed by
  \<open>RemoteRange(key, offset + written, -1)\<close> exactly when \<open>offset + written < existingSize\<close>.
  The object stored afterwards keeps the old bytes \<open>[0, offset)\<close>, holds the incoming
  bytes at \<open>[offset, offset + written)\<close>, and keeps the old tail beyond that. The sizes
  are \<^verbatim>\<open>int64\<close> values: the old size and \<open>offset + written\<close> are below \<open>2^63\<close>.
\<close>

theorem WriteStream_overwrite_middle:
  assumes "faults r = []"
    and "stored r (getKey d path) = Some old"
    and "length old < 2 ^ 63"
    and "0 < sint offset" and "sint offset < int (length old)"
    and "length reader + nat (sint offset) < 2 ^ 63"
  shows "let res = WriteStream d path offset reader r;
             key = getKey d path; off = nat (sint offset); written = length reader;
             new = take off old @ reader @ drop (off + written) old
         in fst res = Inr (of_nat written) \<and>
            calls (snd res) = calls r @
              [CallList key [] [] 1,
               CallPutParts key
                 ([RemoteRange key 0 offset, LocalBytes reader] @
                  (if off + written < length old
                   then [RemoteRange key (of_nat written + offset) (- 1)] else []))] \<and>
            stored (snd res) key = Some new \<and>
            take off new = take off old \<and>
            take written (drop off new) = reader \<and>
            (off + written < length old \<longrightarrow> drop (off + written) new = drop (off + written) old)"
proof -
  let ?key = "getKey d path" and ?off = "nat (sint offset)" and ?w = "length reader"
  let ?new = "take ?off old @ reader @ drop (?off + ?w) old"
  let ?parts = "[RemoteRange ?key 0 offset, LocalBytes reader] @
                  (if ?off + ?w < length old
                   then [RemoteRange ?key (of_nat ?w + offset) (- 1)] else [])"
  have parts: "WriteStream_parts offset (of_nat ?w) (of_nat (length old)) ?key reader = ?parts"
    using assms(3-6) by (rule parts_middle)
  have m: "map_of (objects r) ?key = Some old" using assms(2) by (simp add: stored_def)
  have off_le: "?off \<le> length old" using assms(5) by linarith
  have n1: "offset \<noteq> - 1" using assms(4) by auto
  have "int (?w + ?off) < 2 ^ 63" using assms(6)
    by (metis of_nat_less_numeral_power_cancel_iff)
  then have sum: "sint (of_nat ?w + offset) = int ?w + sint offset"
    using assms(4) sint_of_nat64[of ?w] assms(6) by (intro sint_add64[THEN trans]) auto
  then have n2: "nat (sint (of_nat ?w + offset)) = ?off + ?w" using assms(4) by simp
  have comp: "compose (objects r) ?parts = Some ?new"
    using m n1 n2 by simp
  have ws: "WriteStream d path offset reader r =
           (Inr (of_nat ?w),
            (called (CallPutParts ?key ?parts) (called (CallList ?key [] [] 1) r))
            \<lparr>objects := put_object ?key ?new (objects r)\<rparr>)"
    using WriteStream_existing[OF assms(1,2), of offset reader ?new] comp parts by simp
  have t1: "take ?off ?new = take ?off old" using off_le by simp
  have t2: "take ?w (drop ?off ?new) = reader" using off_le by simp
  have t3: "drop (?off + ?w) ?new = drop (?off + ?w) old" using off_le by simp
  show ?thesis
    unfolding Let_def ws using t1 t2 t3 by (simp add: stored_def)
qed


lemma example_driver_eq:
  "example_driver = \<lparr>Bucket = ''registry'', BaseURL = ''http://kodo.test/'', RootDirectory = ''/reg''\<rparr>"
  by (simp add: example_driver_def New_def TrimRight_def HasSuffix_def Let_def suffix_to_prefix)

lemma example_key: "getKey example_driver p = ''reg'' @ p"
  by (simp add: example_driver_eq getKey_def TrimLeft_def)

theorem WriteStream_overwrite_middle_witness:
  "faults \<lparr>objects = [(''reg/a'', [1, 2, 3, 4, 5])], faults = [], calls = []\<rparr> = [] \<and>
   stored \<lparr>objects = [(''reg/a'', [1, 2, 3, 4, 5])], faults = [], calls = []\<rparr>
     (getKey example_driver ''/a'') = Some [1, 2, 3, 4, 5] \<and>
   0 < sint (2 :: int64) \<and> sint (2 :: int64) < int (length [1, 2, 3, 4, 5 :: byte]) \<and>
   fst (WriteStream example_driver ''/a'' 2 [9, 9]
          \<lparr>objects = [(''reg/a'', [1, 2, 3, 4, 5])], faults = [], calls = []\<rparr>) = Inr 2 \<and>
   calls (snd (WriteStream example_driver ''/a'' 2 [9, 9]
          \<lparr>objects = [(''reg/a'', [1, 2, 3, 4, 5])], faults = [], calls = []\<rparr>)) =
     [CallList ''reg/a'' [] [] 1,
      CallPutParts ''reg/a''
        [RemoteRange ''reg/a'' 0 2, LocalBytes [9, 9], RemoteRange ''reg/a'' 4 (- 1)]] \<and>
   stored (snd (WriteStream example_driver ''/a'' 2 [9, 9]
          \<lparr>objects = [(''reg/a'', [1, 2, 3, 4, 5])], faults = [], calls = []\<rparr>)) ''reg/a'' =
     Some [1, 2, 9, 9, 5]"
proof -
  let ?r = "\<lparr>objects = [(''reg/a'', [1, 2, 3, 4, 5 :: byte])], faults = [], calls = []\<rparr>"
  have h1: "faults ?r = []" by simp
  have h2: "stored ?r (getKey example_driver ''/a'') = Some [1, 2, 3, 4, 5]"
    by (simp add: stored_def example_key)
  have h3: "length [1, 2, 3, 4, 5 :: byte] < 2 ^ 63" by simp
  have h4: "0 < sint (2 :: int64)" by simp
  have h5: "sint (2 :: int64) < int (length [1, 2, 3, 4, 5 :: byte])" by simp
  have h6: "length [9, 9 :: byte] + nat (sint (2 :: int64)) < 2 ^ 63" by simp
  show ?thesis
    using WriteStream_overwrite_middle[OF h1 h2 h3 h4 h5 h6] h1 h2 h4 h5
    by (simp add: Let_def example_key)
qed

lemma parts_zero:
  assumes "n < 2 ^ 63" and "w < 2 ^ 63"
  shows "WriteStream_parts 0 (of_nat w) (of_nat n) K bs =
           [LocalBytes bs] @ (if w < n then [RemoteRange K (of_nat w) (- 1)] else [])"
  using assms by (simp add: WriteStream_parts_def word_sless_alt sint_of_nat64)

lemma parts_append:
  assumes "n < 2 ^ 63" and "0 < n"
  shows "WriteStream_parts (of_nat n) written (of_nat n) K bs =
           [RemoteRange K 0 (- 1), LocalBytes bs]"
proof -
  have "sint (of_nat n :: int64) \<noteq> sint (0 :: int64)"
    using assms by (simp add: sint_of_nat64)
  then have "(of_nat n :: int64) \<noteq> 0" by auto
  then show ?thesis by (simp add: WriteStream_parts_def)
qed

lemma parts_sparse:
  assumes "n < 2 ^ 63" and "int n < sint offset"
  shows "WriteStream_parts offset written (of_nat n) K bs =
           [RemoteRange K 0 (- 1), LocalBytes (replicate (nat (sint offset) - n) 0), LocalBytes bs]"
proof -
  have sn: "sint (of_nat n :: int64) = int n" using assms(1) by (rule sint_of_nat64)
  have up: "sint offset < 2 ^ 63" using sint_less[of offset] by simp
  have n0: "offset \<noteq> 0" using assms(2) by auto
  have n1: "offset \<noteq> of_nat n" using assms(2) sn by auto
  have n2: "\<not> offset <s of_nat n" using assms(2) sn by (simp add: word_sless_alt)
  have gt: "of_nat n <s offset" using assms(2) sn by (simp add: word_sless_alt)
  have "sint (offset - of_nat n) = sint offset - int n"
    using assms(2) up sn by (intro sint_sub64[THEN trans]) auto
  then have gap: "nat (sint (offset - of_nat n)) = nat (sint offset) - n" by simp
  show ?thesis
    unfolding WriteStream_parts_def using n0 n1 n2 gt gap by simp
qed

text \<open>
  Claim C4. A write at offset 0 onto an existing object issues one compose request with
  the parts \<open>[LocalBytes(incoming)]\<close>, followed by \<open>RemoteRange(key, written, -1)\<close>
  exactly when \<open>written < existingSize\<close>. The object stored afterwards starts with the
  incoming bytes and, when \<open>written < existingSize\<close>, keeps the old bytes from \<open>written\<close>
  on as its tail. Both sizes are \<^verbatim>\<open>int64\<close> values, below \<open>2^63\<close>.
\<close>

theorem WriteStream_offset_zero:
  assumes "faults r = []"
    and "stored r (getKey d path) = Some old"
    and "length old < 2 ^ 63" and "length reader < 2 ^ 63"
  shows "let res = WriteStream d path 0 reader r;
             key = getKey d path; written = length reader;
             new = reader @ drop written old
         in fst res = Inr (of_nat written) \<and>
            calls (snd res) = calls r @
              [CallList key [] [] 1,
               CallPutParts key
                 ([LocalBytes reader] @
                  (if written < length old then [RemoteRange key (of_nat written) (- 1)] else []))] \<and>
            stored (snd res) key = Some new \<and>
            take written new = reader \<and>
            (written < length old \<longrightarrow> drop written new = drop written old)"
proof -
  let ?key = "getKey d path" and ?w = "length reader"
  let ?new = "reader @ drop ?w old"
  let ?parts = "[LocalBytes reader] @
                  (if ?w < length old then [RemoteRange ?key (of_nat ?w) (- 1)] else [])"
  have parts: "WriteStream_parts 0 (of_nat ?w) (of_nat (length old)) ?key reader = ?parts"
    using assms(3,4) by (rule parts_zero)
  have m: "map_of (objects r) ?key = Some old" using assms(2) by (simp add: stored_def)
  have comp: "compose (objects r) ?parts = Some ?new"
    using m assms(4) by (simp add: sint_of_nat64)
  have ws: "WriteStream d path 0 reader r =
           (Inr (of_nat ?w),
            (called (CallPutParts ?key ?parts) (called (CallList ?key [] [] 1) r))
            \<lparr>objects := put_object ?key ?new (objects r)\<rparr>)"
    using WriteStream_existing[OF assms(1,2), of 0 reader ?new] comp parts by simp
  show ?thesis
    unfolding Let_def ws by (simp add: stored_def)
qed

theorem WriteStream_offset_zero_witness:
  "faults \<lparr>objects = [(''reg/a'', [104, 101, 108, 108, 111, 32, 119, 111, 114, 108, 100])],
           faults = [], calls = []\<rparr> = [] \<and>
   stored \<lparr>objects = [(''reg/a'', [104, 101, 108, 108, 111, 32, 119, 111, 114, 108, 100])],
           faults = [], calls = []\<rparr> (getKey example_driver ''/a'') =
     Some [104, 101, 108, 108, 111, 32, 119, 111, 114, 108, 100] \<and>
   fst (WriteStream example_driver ''/a'' 0 [88]
          \<lparr>objects = [(''reg/a'', [104, 101, 108, 108, 111, 32, 119, 111, 114, 108, 100])],
           faults = [], calls = []\<rparr>) = Inr 1 \<and>
   calls (snd (WriteStream example_driver ''/a'' 0 [88]
          \<lparr>objects = [(''reg/a'', [104, 101, 108, 108, 111, 32, 119, 111, 114, 108, 100])],
           faults = [], calls = []\<rparr>)) =
     [CallList ''reg/a'' [] [] 1,
      CallPutParts ''reg/a'' [LocalBytes [88], RemoteRange ''reg/a'' 1 (- 1)]] \<and>
   stored (snd (WriteStream example_driver ''/a'' 0 [88]
          \<lparr>objects = [(''reg/a'', [104, 101, 108, 108, 111, 32, 119, 111, 114, 108, 100])],
           faults = [], calls = []\<rparr>)) ''reg/a'' =
     Some [88, 101, 108, 108, 111, 32, 119, 111, 114, 108, 100]"
proof -
  let ?old = "[104, 101, 108, 108, 111, 32, 119, 111, 114, 108, 100 :: byte]"
  let ?r = "\<lparr>objects = [(''reg/a'', ?old)], faults = [], calls = []\<rparr>"
  have h1: "faults ?r = []" by simp
  have h2: "stored ?r (getKey example_driver ''/a'') = Some ?old"
    by (simp add: stored_def example_key)
  have h3: "length ?old < 2 ^ 63" by simp
  have h4: "length [88 :: byte] < 2 ^ 63" by simp
  show ?thesis
    using WriteStream_offset_zero[OF h1 h2 h3 h4] h1 h2
    by (simp add: Let_def example_key)
qed

text \<open>
  Claim C2, as amended. A write at \<open>offset = existingSize\<close> onto an existing object
  issues one compose request: with the parts \<open>[RemoteRange(key, 0, -1),
  LocalBytes(incoming)]\<close> when the object is not empty, and with the single part
  \<open>[LocalBytes(incoming)]\<close> when it is empty (then the offset is 0 and the branch for
  offset 0 is taken first). In both cases the object stored afterwards is the old
  content followed by the incoming bytes, of length \<open>existingSize + written\<close>.
\<close>

theorem WriteStream_append:
  assumes "faults r = []"
    and "stored r (getKey d path) = Some old"
    and "length old < 2 ^ 63" and "length reader < 2 ^ 63"
    and "offset = of_nat (length old)"
  shows "let res = WriteStream d path offset reader r;
             key = getKey d path; written = length reader;
             new = old @ reader
         in fst res = Inr (of_nat written) \<and>
            calls (snd res) = calls r @
              [CallList key [] [] 1,
               CallPutParts key
                 (if length old = 0 then [LocalBytes reader]
                  else [RemoteRange key 0 (- 1), LocalBytes reader])] \<and>
            stored (snd res) key = Some new \<and>
            length new = length old + written"
proof -
  let ?key = "getKey d path" and ?w = "length reader"
  let ?new = "old @ reader"
  let ?parts = "if length old = 0 then [LocalBytes reader]
                  else [RemoteRange ?key 0 (- 1), LocalBytes reader]"
  have parts: "WriteStream_parts offset (of_nat ?w) (of_nat (length old)) ?key reader = ?parts"
  proof (cases "length old = 0")
    case True
    then show ?thesis using assms(5) parts_zero[of 0 ?w ?key reader] assms(4) by simp
  next
    case False
    then show ?thesis using assms(5) parts_append[OF assms(3)] by simp
  qed
  have m: "map_of (objects r) ?key = Some old" using assms(2) by (simp add: stored_def)
  have comp: "compose (objects r) ?parts = Some ?new"
    using m by simp
  have ws: "WriteStream d path offset reader r =
           (Inr (of_nat ?w),
            (called (CallPutParts ?key ?parts) (called (CallList ?key [] [] 1) r))
            \<lparr>objects := put_object ?key ?new (objects r)\<rparr>)"
    using WriteStream_existing[OF assms(1,2), of offset reader ?new] comp parts by simp
  show ?thesis
    unfolding Let_def ws by (simp add: stored_def)
qed

theorem WriteStream_append_witness:
  "faults \<lparr>objects = [(''reg/a'', [104, 101, 108, 108, 111])], faults = [], calls = []\<rparr> = [] \<and>
   stored \<lparr>objects = [(''reg/a'', [104, 101, 108, 108, 111])], faults = [], calls = []\<rparr>
     (getKey example_driver ''/a'') = Some [104, 101, 108, 108, 111] \<and>
   (5 :: int64) = of_nat (length [104, 101, 108, 108, 111 :: byte]) \<and>
   fst (WriteStream example_driver ''/a'' 5 [32, 119, 111, 114, 108, 100]
          \<lparr>objects = [(''reg/a'', [104, 101, 108, 108, 111])], faults = [], calls = []\<rparr>) = Inr 6 \<and>
   calls (snd (WriteStream example_driver ''/a'' 5 [32, 119, 111, 114, 108, 100]
          \<lparr>objects = [(''reg/a'', [104, 101, 108, 108, 111])], faults = [], calls = []\<rparr>)) =
     [CallList ''reg/a'' [] [] 1,
      CallPutParts ''reg/a'' [RemoteRange ''reg/a'' 0 (- 1), LocalBytes [32, 119, 111, 114, 108, 100]]] \<and>
   stored (snd (WriteStream example_driver ''/a'' 5 [32, 119, 111, 114, 108, 100]
          \<lparr>objects = [(''reg/a'', [104, 101, 108, 108, 111])], faults = [], calls = []\<rparr>)) ''reg/a'' =
     Some [104, 101, 108, 108, 111, 32, 119, 111, 114, 108, 100]"
proof -
  let ?old = "[104, 101, 108, 108, 111 :: byte]"
  let ?r = "\<lparr>objects = [(''reg/a'', ?old)], faults = [], calls = []\<rparr>"
  have h1: "faults ?r = []" by simp
  have h2: "stored ?r (getKey example_driver ''/a'') = Some ?old"
    by (simp add: stored_def example_key)
  have h3: "length ?old < 2 ^ 63" by simp
  have h4: "length [32, 119, 111, 114, 108, 100 :: byte] < 2 ^ 63" by simp
  have h5: "(5 :: int64) = of_nat (length ?old)" by simp
  note w = WriteStream_append[OF h1 h2 h3 h4 h5, unfolded Let_def]
  have c1: "fst (WriteStream example_driver ''/a'' 5 [32, 119, 111, 114, 108, 100] ?r) = Inr 6"
    using w by simp
  have c2: "calls (snd (WriteStream example_driver ''/a'' 5 [32, 119, 111, 114, 108, 100] ?r)) =
     [CallList ''reg/a'' [] [] 1,
      CallPutParts ''reg/a'' [RemoteRange ''reg/a'' 0 (- 1), LocalBytes [32, 119, 111, 114, 108, 100]]]"
    using w by (simp add: example_key)
  have c3: "stored (snd (WriteStream example_driver ''/a'' 5 [32, 119, 111, 114, 108, 100] ?r)) ''reg/a'' =
     Some [104, 101, 108, 108, 111, 32, 119, 111, 114, 108, 100]"
    using w by (simp add: example_key)
  show ?thesis
    using h1 h2 h5 c1 c2 c3 by blast
qed

text \<open>
  The claim as stated fails for an empty existing object: at offset 0 = existingSize the
  compose request carries the part \<open>[LocalBytes(incoming)]\<close> alone, not a range part
  followed by the local bytes.
\<close>

theorem WriteStream_append_counterexample:
  "stored \<lparr>objects = [(''reg/a'', [])], faults = [], calls = []\<rparr>
     (getKey example_driver ''/a'') = Some [] \<and>
   (0 :: int64) = of_nat (length ([] :: byte list)) \<and>
   calls (snd (WriteStream example_driver ''/a'' 0 [88]
          \<lparr>objects = [(''reg/a'', [])], faults = [], calls = []\<rparr>)) =
     [CallList ''reg/a'' [] [] 1, CallPutParts ''reg/a'' [LocalBytes [88]]] \<and>
   calls (snd (WriteStream example_driver ''/a'' 0 [88]
          \<lparr>objects = [(''reg/a'', [])], faults = [], calls = []\<rparr>)) \<noteq>
     [CallList ''reg/a'' [] [] 1,
      CallPutParts ''reg/a'' [RemoteRange ''reg/a'' 0 (- 1), LocalBytes [88]]]"
proof -
  let ?r = "\<lparr>objects = [(''reg/a'', [] :: byte list)], faults = [], calls = []\<rparr>"
  have h1: "faults ?r = []" by simp
  have h2: "stored ?r (getKey example_driver ''/a'') = Some []"
    by (simp add: stored_def example_key)
  have p: "WriteStream_parts 0 (of_nat (length [88 :: byte])) (of_nat (length ([] :: byte list)))
             (getKey example_driver ''/a'') [88] = [LocalBytes [88]]"
    using parts_zero[of 0 1 "getKey example_driver ''/a''" "[88]"] by simp
  have c: "compose (objects ?r)
             (WriteStream_parts 0 (of_nat (length [88 :: byte])) (of_nat (length ([] :: byte list)))
               (getKey example_driver ''/a'') [88]) = Some [88]"
    unfolding p by simp
  show ?thesis
    using WriteStream_existing[OF h1 h2 c] h2 unfolding p
    by (simp add: example_key)
qed

text \<open>
  Claim C3. A write at an offset beyond the end of an existing object issues one compose
  request with the parts \<open>[RemoteRange(key, 0, -1), LocalBytes(offset - existingSize zero
  bytes), LocalBytes(incoming)]\<close>. The object stored afterwards is the old content, the
  zero bytes and the incoming bytes, of length \<open>offset + written\<close>.
\<close>

theorem WriteStream_sparse:
  assumes "faults r = []"
    and "stored r (getKey d path) = Some old"
    and "length old < 2 ^ 63"
    and "int (length old) < sint offset"
  shows "let res = WriteStream d path offset reader r;
             key = getKey d path; off = nat (sint offset); written = length reader;
             gap = off - length old;
             new = old @ replicate gap 0 @ reader
         in fst res = Inr (of_nat written) \<and>
            calls (snd res) = calls r @
              [CallList key [] [] 1,
               CallPutParts key
                 [RemoteRange key 0 (- 1), LocalBytes (replicate gap 0), LocalBytes reader]] \<and>
            stored (snd res) key = Some new \<and>
            length new = off + written"
proof -
  let ?key = "getKey d path" and ?w = "length reader" and ?off = "nat (sint offset)"
  let ?gap = "?off - length old"
  let ?new = "old @ replicate ?gap 0 @ reader"
  let ?parts = "[RemoteRange ?key 0 (- 1), LocalBytes (replicate ?gap 0), LocalBytes reader]"
  have parts: "WriteStream_parts offset (of_nat ?w) (of_nat (length old)) ?key reader = ?parts"
    using assms(3,4) by (rule parts_sparse)
  have m: "map_of (objects r) ?key = Some old" using assms(2) by (simp add: stored_def)
  have comp: "compose (objects r) ?parts = Some ?new"
    using m by simp
  have ws: "WriteStream d path offset reader r =
           (Inr (of_nat ?w),
            (called (CallPutParts ?key ?parts) (called (CallList ?key [] [] 1) r))
            \<lparr>objects := put_object ?key ?new (objects r)\<rparr>)"
    using WriteStream_existing[OF assms(1,2), of offset reader ?new] comp parts by simp
  have len: "length ?new = ?off + ?w" using assms(4) by simp
  show ?thesis
    unfolding Let_def ws using len by (simp add: stored_def)
qed

theorem WriteStream_sparse_witness:
  "faults \<lparr>objects = [(''reg/a'', [97, 98, 99])], faults = [], calls = []\<rparr> = [] \<and>
   stored \<lparr>objects = [(''reg/a'', [97, 98, 99])], faults = [], calls = []\<rparr>
     (getKey example_driver ''/a'') = Some [97, 98, 99] \<and>
   int (length [97, 98, 99 :: byte]) < sint (5 :: int64) \<and>
   fst (WriteStream example_driver ''/a'' 5 [90]
          \<lparr>objects = [(''reg/a'', [97, 98, 99])], faults = [], calls = []\<rparr>) = Inr 1 \<and>
   calls (snd (WriteStream example_driver ''/a'' 5 [90]
          \<lparr>objects = [(''reg/a'', [97, 98, 99])], faults = [], calls = []\<rparr>)) =
     [CallList ''reg/a'' [] [] 1,
      CallPutParts ''reg/a'' [RemoteRange ''reg/a'' 0 (- 1), LocalBytes [0, 0], LocalBytes [90]]] \<and>
   stored (snd (WriteStream example_driver ''/a'' 5 [90]
          \<lparr>objects = [(''reg/a'', [97, 98, 99])], faults = [], calls = []\<rparr>)) ''reg/a'' =
     Some [97, 98, 99, 0, 0, 90]"
proof -
  let ?old = "[97, 98, 99 :: byte]"
  let ?r = "\<lparr>objects = [(''reg/a'', ?old)], faults = [], calls = []\<rparr>"
  have h1: "faults ?r = []" by simp
  have h2: "stored ?r (getKey example_driver ''/a'') = Some ?old"
    by (simp add: stored_def example_key)
  have h3: "length ?old < 2 ^ 63" by simp
  have h4: "int (length ?old) < sint (5 :: int64)" by simp
  have g: "replicate (5 - 3) (0 :: byte) = [0, 0]" by (simp add: numeral_eq_Suc)
  show ?thesis
    using WriteStream_sparse[OF h1 h2 h3 h4, of "[90]"] h1 h2 h4 g
    by (simp add: Let_def example_key)
qed

subsection \<open>WriteStream when no object is stored under the key\<close>

lemma Stat_objects: "Stat d path r = (res, r1) \<Longrightarrow> objects r1 = objects r"
  by (auto simp: Stat_def Let_def split: prod.splits if_splits list.splits
      dest: bucket_List_objects)

lemma Stat_calls:
  "Stat d path r = (res, r1) \<Longrightarrow> calls r1 = calls r @ [CallList (getKey d path) [] [] 1]"
  by (auto simp: Stat_def Let_def bucket_List_def fault_def called_def
      split: prod.splits if_splits list.splits option.splits)

lemma Stat_notfound:
  assumes "faults r = []" and "\<forall>k \<in> fst ` set (objects r). \<not> prefix (getKey d path) k"
  shows "Stat d path r = (Inl (PathNotFoundError path), called (CallList (getKey d path) [] [] 1) r)"
proof -
  have "set (matching (objects r) (getKey d path) []) = {}"
    using assms(2) by (auto simp: set_matching)
  then have "matching (objects r) (getKey d path) [] = []" by simp
  then show ?thesis using assms(1) by (simp add: Stat_nofault)
qed

lemma bucket_PutFile_nofault:
  "faults r = [] \<Longrightarrow>
   bucket_PutFile key bs r =
     (None, (called (CallPutFile key bs) r)\<lparr>objects := put_object key bs (objects r)\<rparr>)"
  by (simp add: bucket_PutFile_def fault_none)

lemma WriteStream_lookup_error:
  assumes "Stat d path r = (Inl e, r1)" and "Error e \<noteq> Error (PathNotFoundError path)"
  shows "WriteStream d path offset reader r = (Inl e, r1)"
  using assms by (simp add: WriteStream_def)

lemma WriteStream_whole:
  assumes "Stat d path r = (Inl e, r1)" and "Error e = Error (PathNotFoundError path)"
    and "faults r1 = []"
  shows "WriteStream d path offset reader r =
           (Inr (of_nat (length reader)),
            (called (CallPutFile (getKey d path) reader) r1)
            \<lparr>objects := put_object (getKey d path) reader (objects r1)\<rparr>)"
  using assms
  by (simp add: WriteStream_def local_call_none bucket_PutFile_nofault Let_def del: Error.simps)

lemma WriteStream_ranges:
  assumes "Stat d path r = (Inr fi, r1)" and "faults r1 = []"
  shows "WriteStream d path offset reader r =
           (case PutParts (getKey d path)
                   (WriteStream_parts offset (of_nat (length reader)) (Size fi) (getKey d path) reader) r1 of
              (Some e, r5) \<Rightarrow> (Inl e, r5)
            | (None, r5) \<Rightarrow> (Inr (of_nat (length reader)), r5))"
  using assms by (simp add: WriteStream_def local_call_none Let_def)

text \<open>
  Claim C5, as amended. When no stored key starts with the target key, the lookup
  reports "not found" and the write is one whole-object upload of exactly the incoming
  bytes, whatever the offset: no compose request, no range part, no zero fill; the
  length returned is the number of incoming bytes. When the lookup fails with an error
  whose message is not that of "path not found", that error is returned, nothing is
  written, and the listing request of the lookup is the only request issued.
\<close>

theorem WriteStream_no_object:
  "(faults r = [] \<and> (\<forall>k \<in> fst ` set (objects r). \<not> prefix (getKey d path) k) \<longrightarrow>
      (let res = WriteStream d path offset reader r; key = getKey d path
       in fst res = Inr (of_nat (length reader)) \<and>
          calls (snd res) = calls r @ [CallList key [] [] 1, CallPutFile key reader] \<and>
          stored (snd res) key = Some reader)) \<and>
   (Stat d path r = (Inl e, r1) \<and> Error e \<noteq> Error (PathNotFoundError path) \<longrightarrow>
      WriteStream d path offset reader r = (Inl e, r1) \<and>
      objects r1 = objects r \<and>
      calls r1 = calls r @ [CallList (getKey d path) [] [] 1])"
proof (intro conjI impI)
  assume a: "faults r = [] \<and> (\<forall>k \<in> fst ` set (objects r). \<not> prefix (getKey d path) k)"
  let ?key = "getKey d path"
  let ?r1 = "called (CallList ?key [] [] 1) r"
  from a have st: "Stat d path r = (Inl (PathNotFoundError path), ?r1)"
    by (simp add: Stat_notfound)
  have "faults ?r1 = []" using a by simp
  from WriteStream_whole[OF st _ this, of offset reader]
  show "let res = WriteStream d path offset reader r; key = getKey d path
       in fst res = Inr (of_nat (length reader)) \<and>
          calls (snd res) = calls r @ [CallList key [] [] 1, CallPutFile key reader] \<and>
          stored (snd res) key = Some reader"
    by (simp add: Let_def stored_def)
next
  assume b: "Stat d path r = (Inl e, r1) \<and> Error e \<noteq> Error (PathNotFoundError path)"
  then show "WriteStream d path offset reader r = (Inl e, r1)"
    by (simp add: WriteStream_lookup_error)
  from b show "objects r1 = objects r" by (auto dest: Stat_objects)
  from b show "calls r1 = calls r @ [CallList (getKey d path) [] [] 1]" by (auto dest: Stat_calls)
qed


theorem WriteStream_no_object_witness:
  "faults \<lparr>objects = [(''reg/b'', [1])], faults = [], calls = []\<rparr> = [] \<and>
   \<not> prefix (getKey example_driver ''/a'') ''reg/b'' \<and>
   fst (WriteStream example_driver ''/a'' 7 [90]
          \<lparr>objects = [(''reg/b'', [1])], faults = [], calls = []\<rparr>) = Inr 1 \<and>
   calls (snd (WriteStream example_driver ''/a'' 7 [90]
          \<lparr>objects = [(''reg/b'', [1])], faults = [], calls = []\<rparr>)) =
     [CallList ''reg/a'' [] [] 1, CallPutFile ''reg/a'' [90]] \<and>
   stored (snd (WriteStream example_driver ''/a'' 7 [90]
          \<lparr>objects = [(''reg/b'', [1])], faults = [], calls = []\<rparr>)) ''reg/a'' = Some [90] \<and>
   Stat example_driver ''/a''
     \<lparr>objects = [(''reg/b'', [1])], faults = [Some (OtherError ''timeout'')], calls = []\<rparr> =
     (Inl (OtherError ''timeout''),
      \<lparr>objects = [(''reg/b'', [1])], faults = [], calls = [CallList ''reg/a'' [] [] 1]\<rparr>) \<and>
   Error (OtherError ''timeout'') \<noteq> Error (PathNotFoundError ''/a'') \<and>
   WriteStream example_driver ''/a'' 7 [90]
     \<lparr>objects = [(''reg/b'', [1])], faults = [Some (OtherError ''timeout'')], calls = []\<rparr> =
     (Inl (OtherError ''timeout''),
      \<lparr>objects = [(''reg/b'', [1])], faults = [], calls = [CallList ''reg/a'' [] [] 1]\<rparr>)"
proof -
  let ?r = "\<lparr>objects = [(''reg/b'', [1 :: byte])], faults = [], calls = []\<rparr>"
  let ?f = "\<lparr>objects = [(''reg/b'', [1 :: byte])], faults = [Some (OtherError ''timeout'')], calls = []\<rparr>"
  let ?f1 = "\<lparr>objects = [(''reg/b'', [1 :: byte])], faults = [], calls = [CallList ''reg/a'' [] [] 1]\<rparr>"
  have h1: "faults ?r = []" by simp
  have h2: "\<not> prefix (getKey example_driver ''/a'') ''reg/b''" by (simp add: example_key)
  have h3: "Stat example_driver ''/a'' ?f = (Inl (OtherError ''timeout''), ?f1)"
    by (simp add: Stat_def bucket_List_def fault_def called_def example_key)
  have h4: "Error (OtherError ''timeout'') \<noteq> Error (PathNotFoundError ''/a'')" by simp
  note w1 = WriteStream_no_object[where r = ?r and d = example_driver and path = "''/a''"
      and offset = 7 and reader = "[90]", THEN conjunct1, unfolded Let_def]
  note w2 = WriteStream_no_object[where r = ?f and d = example_driver and path = "''/a''"
      and e = "OtherError ''timeout''" and ?r1.0 = ?f1 and offset = 7 and reader = "[90]",
      THEN conjunct2]
  have c1: "fst (WriteStream example_driver ''/a'' 7 [90] ?r) = Inr 1 \<and>
     calls (snd (WriteStream example_driver ''/a'' 7 [90] ?r)) =
       [CallList ''reg/a'' [] [] 1, CallPutFile ''reg/a'' [90]] \<and>
     stored (snd (WriteStream example_driver ''/a'' 7 [90] ?r)) ''reg/a'' = Some [90]"
    using w1 h1 h2 by (simp add: example_key)
  have c2: "WriteStream example_driver ''/a'' 7 [90] ?f = (Inl (OtherError ''timeout''), ?f1)"
    using w2 h3 h4 by blast
  show ?thesis using h1 h2 h3 h4 c1 c2 by blast
qed

text \<open>
  The claim as stated fails when no object is stored under the target key but another
  key extends it: the lookup then reports a directory of size 0, not "not found", and a
  write at offset 1 builds a compose request with a range part of the missing object
  and a zero fill, which the store refuses.
\<close>

theorem WriteStream_no_object_counterexample:
  "stored \<lparr>objects = [(''reg/a/b'', [1])], faults = [], calls = []\<rparr>
     (getKey example_driver ''/a'') = None \<and>
   calls (snd (WriteStream example_driver ''/a'' 1 [90]
          \<lparr>objects = [(''reg/a/b'', [1])], faults = [], calls = []\<rparr>)) =
     [CallList ''reg/a'' [] [] 1,
      CallPutParts ''reg/a'' [RemoteRange ''reg/a'' 0 (- 1), LocalBytes [0], LocalBytes [90]]] \<and>
   fst (WriteStream example_driver ''/a'' 1 [90]
          \<lparr>objects = [(''reg/a/b'', [1])], faults = [], calls = []\<rparr>) =
     Inl (ErrorInfo 612 ''no such file or directory'')"
proof -
  let ?r = "\<lparr>objects = [(''reg/a/b'', [1 :: byte])], faults = [], calls = []\<rparr>"
  let ?r1 = "called (CallList ''reg/a'' [] [] 1) ?r"
  let ?parts = "[RemoteRange ''reg/a'' 0 (- 1), LocalBytes [0], LocalBytes [90]]"
  have m: "matching (objects ?r) ''reg/a'' [] = [''reg/a/b'']"
    by (simp add: matching_def)
  have st: "Stat example_driver ''/a'' ?r =
      (Inr \<lparr>Path = ''/a'', Size = 0, IsDir = True\<rparr>, ?r1)"
    using m by (simp add: Stat_nofault example_key)
  have p: "WriteStream_parts 1 (of_nat (length [90 :: byte])) 0 ''reg/a'' [90] = ?parts"
    by (simp add: WriteStream_parts_def word_sless_alt)
  have f: "faults ?r1 = []" by simp
  have c: "compose (objects ?r1) ?parts = None" by simp
  have "WriteStream example_driver ''/a'' 1 [90] ?r =
      (Inl (ErrorInfo 612 ''no such file or directory''), called (CallPutParts ''reg/a'' ?parts) ?r1)"
    using WriteStream_ranges[OF st f, of 1 "[90]"] p PutParts_nofault_fail[OF f c, of "''reg/a''"]
    by (simp add: example_key)
  then show ?thesis by (simp add: stored_def example_key)
qed

subsection \<open>ReadStream\<close>

lemma bucket_Stat_nofault:
  "faults r = [] \<Longrightarrow>
   bucket_Stat key r =
     (case map_of (objects r) key of
        None \<Rightarrow> Inl (ErrorInfo 612 ''no such file or directory'')
      | Some c \<Rightarrow> Inr (of_nat (length c)),
      called (CallStat key) r)"
  by (simp add: bucket_Stat_def fault_none split: option.splits)

lemma client_Do_nofault:
  "faults r = [] \<Longrightarrow> map_of (objects r) key = Some c \<Longrightarrow>
   client_Do baseURL key rng r =
     (Inr (case rng of None \<Rightarrow> (200, c) | Some off \<Rightarrow> (206, drop (nat (sint off)) c)),
      called (CallGet (baseURL @ key) rng) r)"
  by (simp add: client_Do_def fault_none split: option.splits)

text \<open>
  Claim C9. For an object of size \<open>S\<close> stored under the key and calls that run without
  a fault: when \<open>offset \<ge> S\<close> ReadStream returns the empty content without error and
  issues the stat request only; the download request is issued exactly when
  \<open>offset < S\<close>, with a range header exactly when the offset is positive, and the
  content returned is then the object from the offset on.
\<close>

theorem ReadStream_offset:
  assumes "faults r = []"
    and "stored r (getKey d path) = Some c"
    and "length c < 2 ^ 63"
  shows "ReadStream d path offset r =
           (if int (length c) \<le> sint offset
            then (Inr [], called (CallStat (getKey d path)) r)
            else (Inr (drop (nat (sint offset)) c),
                  called (CallGet (BaseURL d @ getKey d path)
                            (if 0 < sint offset then Some offset else None))
                    (called (CallStat (getKey d path)) r)))"
proof -
  have m: "map_of (objects r) (getKey d path) = Some c" using assms(2) by (simp add: stored_def)
  have sn: "sint (of_nat (length c) :: int64) = int (length c)"
    using assms(3) by (rule sint_of_nat64)
  have le: "((of_nat (length c) :: int64) \<le>s offset) = (int (length c) \<le> sint offset)"
    by (simp add: word_sle_eq sn)
  have pos: "(0 <s offset) = (0 < sint offset)" by (simp add: word_sless_alt)
  show ?thesis
  proof (cases "int (length c) \<le> sint offset")
    case True
    then show ?thesis using assms(1) m le
      by (simp add: ReadStream_def bucket_Stat_nofault)
  next
    case False
    have f1: "faults (called (CallStat (getKey d path)) r) = []" using assms(1) by simp
    have m1: "map_of (objects (called (CallStat (getKey d path)) r)) (getKey d path) = Some c"
      using m by simp
    show ?thesis using False assms(1) m le pos
      by (simp add: ReadStream_def bucket_Stat_nofault local_call_none
          client_Do_nofault[OF f1 m1])
  qed
qed

lemma example_BaseURL: "BaseURL example_driver = ''http://kodo.test/''"
  by (simp add: example_driver_eq)

theorem ReadStream_offset_witness:
  "faults \<lparr>objects = [(''reg/a'', [1, 2, 3])], faults = [], calls = []\<rparr> = [] \<and>
   stored \<lparr>objects = [(''reg/a'', [1, 2, 3])], faults = [], calls = []\<rparr>
     (getKey example_driver ''/a'') = Some [1, 2, 3] \<and>
   ReadStream example_driver ''/a'' 3
     \<lparr>objects = [(''reg/a'', [1, 2, 3])], faults = [], calls = []\<rparr> =
     (Inr [], \<lparr>objects = [(''reg/a'', [1, 2, 3])], faults = [], calls = [CallStat ''reg/a'']\<rparr>) \<and>
   ReadStream example_driver ''/a'' 1
     \<lparr>objects = [(''reg/a'', [1, 2, 3])], faults = [], calls = []\<rparr> =
     (Inr [2, 3], \<lparr>objects = [(''reg/a'', [1, 2, 3])], faults = [],
        calls = [CallStat ''reg/a'', CallGet ''http://kodo.test/reg/a'' (Some 1)]\<rparr>)"
proof -
  let ?r = "\<lparr>objects = [(''reg/a'', [1, 2, 3 :: byte])], faults = [], calls = []\<rparr>"
  have h1: "faults ?r = []" by simp
  have h2: "stored ?r (getKey example_driver ''/a'') = Some [1, 2, 3]"
    by (simp add: stored_def example_key)
  have h3: "length [1, 2, 3 :: byte] < 2 ^ 63" by simp
  have c1: "ReadStream example_driver ''/a'' 3 ?r =
     (Inr [], \<lparr>objects = [(''reg/a'', [1, 2, 3])], faults = [], calls = [CallStat ''reg/a'']\<rparr>)"
    using ReadStream_offset[OF h1 h2 h3, of 3] by (simp add: example_key called_def)
  have c2: "ReadStream example_driver ''/a'' 1 ?r =
     (Inr [2, 3], \<lparr>objects = [(''reg/a'', [1, 2, 3])], faults = [],
        calls = [CallStat ''reg/a'', CallGet ''http://kodo.test/reg/a'' (Some 1)]\<rparr>)"
    using ReadStream_offset[OF h1 h2 h3, of 1]
    by (simp add: example_key called_def example_BaseURL)
  show ?thesis using h1 h2 c1 c2 by blast
qed


subsection \<open>Move\<close>

lemma map_of_del_object:
  "map_of (del_object k objs) k' = (if k' = k then None else map_of objs k')"
  by (induction objs) (auto simp: del_object_def)

lemma map_of_put_object_other:
  "k' \<noteq> k \<Longrightarrow> map_of (put_object k v objs) k' = map_of objs k'"
  using map_of_del_object[of k objs k'] by (simp add: put_object_def del_object_def)

lemma bucket_Delete_nofault:
  "faults r = [] \<Longrightarrow>
   bucket_Delete key r =
     (case map_of (objects r) key of
        None \<Rightarrow> (Some (ErrorInfo 612 ''no such file or directory''), called (CallDelete key) r)
      | Some c \<Rightarrow> (None, (called (CallDelete key) r)\<lparr>objects := del_object key (objects r)\<rparr>))"
  by (simp add: bucket_Delete_def fault_none split: option.splits)

lemma bucket_Delete_after:
  assumes "faults r = []" and "bucket_Delete key r = (err, r')"
  shows "faults r' = []" and "objects r' = del_object key (objects r)"
    and "calls r' = calls r @ [CallDelete key]"
    and "err = None \<or> isKeyNotExists (the err)"
proof -
  have eq: "map_of (objects r) key = None \<Longrightarrow> del_object key (objects r) = objects r"
    by (auto simp: del_object_def map_of_eq_None_iff filter_id_conv)
  from assms show "faults r' = []" "calls r' = calls r @ [CallDelete key]"
    "err = None \<or> isKeyNotExists (the err)"
    by (auto simp: bucket_Delete_nofault split: option.splits)
  from assms eq show "objects r' = del_object key (objects r)"
    by (auto simp: bucket_Delete_nofault split: option.splits)
qed

lemma bucket_Move_nofault:
  assumes "faults r = []" and "map_of (objects r) src = Some c" and "map_of (objects r) dst = None"
  shows "bucket_Move src dst r =
     (None, (called (CallMove src dst) r)
              \<lparr>objects := put_object dst c (del_object src (objects r))\<rparr>)"
  using assms by (simp add: bucket_Move_def fault_none)

lemma bucket_Move_calls: "calls (snd (bucket_Move src dst r)) = calls r @ [CallMove src dst]"
  by (simp add: bucket_Move_def fault_def called_def split: list.splits option.splits)

text \<open>
  What Move does without a fault. When the source object does not exist, it returns
  "path not found" for the source path after the stat request alone: no delete is
  attempted and the store is unchanged. When the source exists, it issues the stat, then
  the delete of the destination, then the remote move, whether or not an object was
  stored at the destination; when the two keys differ it succeeds, the destination then
  holds the source's content and the source key is gone.
\<close>

lemma Move_overwrites:
  assumes "faults r = []"
  shows "(stored r (getKey d sourcePath) = None \<longrightarrow>
            Move d sourcePath destPath r =
              (Some (PathNotFoundError sourcePath), called (CallStat (getKey d sourcePath)) r) \<and>
            objects (snd (Move d sourcePath destPath r)) = objects r) \<and>
         (stored r (getKey d sourcePath) = Some c \<longrightarrow>
            calls (snd (Move d sourcePath destPath r)) = calls r @
              [CallStat (getKey d sourcePath), CallDelete (getKey d destPath),
               CallMove (getKey d sourcePath) (getKey d destPath)] \<and>
            (getKey d sourcePath \<noteq> getKey d destPath \<longrightarrow>
               fst (Move d sourcePath destPath r) = None \<and>
               stored (snd (Move d sourcePath destPath r)) (getKey d destPath) = Some c \<and>
               stored (snd (Move d sourcePath destPath r)) (getKey d sourcePath) = None))"
proof (intro conjI impI)
  let ?S = "getKey d sourcePath" and ?D = "getKey d destPath"
  assume "stored r ?S = None"
  then have m: "map_of (objects r) ?S = None" by (simp add: stored_def)
  then show mv: "Move d sourcePath destPath r =
      (Some (PathNotFoundError sourcePath), called (CallStat ?S) r)"
    using assms by (simp add: Move_def bucket_Stat_nofault parseError_def)
  show "objects (snd (Move d sourcePath destPath r)) = objects r" by (simp add: mv)
next
  let ?S = "getKey d sourcePath" and ?D = "getKey d destPath"
  let ?r1 = "called (CallStat ?S) r"
  assume "stored r ?S = Some c"
  then have m: "map_of (objects r) ?S = Some c" by (simp add: stored_def)
  obtain err r2 where del: "bucket_Delete ?D ?r1 = (err, r2)" by (cases "bucket_Delete ?D ?r1")
  have f1: "faults ?r1 = []" using assms by simp
  note after = bucket_Delete_after[OF f1 del]
  have mv: "Move d sourcePath destPath r =
      (case bucket_Move ?S ?D r2 of (err, r3) \<Rightarrow> (map_option (parseError sourcePath) err, r3))"
    using assms m del after(4) by (auto simp: Move_def bucket_Stat_nofault)
  show "calls (snd (Move d sourcePath destPath r)) = calls r @ [CallStat ?S, CallDelete ?D, CallMove ?S ?D]"
    using bucket_Move_calls[of ?S ?D r2] after(3)
    by (cases "bucket_Move ?S ?D r2") (simp add: mv)
  assume ne: "?S \<noteq> ?D"
  have ms: "map_of (objects r2) ?S = Some c" using after(2) m ne by (simp add: map_of_del_object)
  have md: "map_of (objects r2) ?D = None" using after(2) by (simp add: map_of_del_object)
  note bm = bucket_Move_nofault[OF after(1) ms md]
  show "fst (Move d sourcePath destPath r) = None" by (simp add: mv bm)
  show "stored (snd (Move d sourcePath destPath r)) ?D = Some c"
    by (simp add: mv bm stored_def)
  show "stored (snd (Move d sourcePath destPath r)) ?S = None"
    using ne by (simp add: mv bm stored_def map_of_put_object_other map_of_del_object)
qed

lemma Move_overwrites_example:
  "faults \<lparr>objects = [(''reg/a'', [1]), (''reg/b'', [2])], faults = [], calls = []\<rparr> = [] \<and>
   stored \<lparr>objects = [(''reg/a'', [1]), (''reg/b'', [2])], faults = [], calls = []\<rparr>
     (getKey example_driver ''/x'') = None \<and>
   Move example_driver ''/x'' ''/b''
     \<lparr>objects = [(''reg/a'', [1]), (''reg/b'', [2])], faults = [], calls = []\<rparr> =
     (Some (PathNotFoundError ''/x''),
      \<lparr>objects = [(''reg/a'', [1]), (''reg/b'', [2])], faults = [], calls = [CallStat ''reg/x'']\<rparr>) \<and>
   stored \<lparr>objects = [(''reg/a'', [1]), (''reg/b'', [2])], faults = [], calls = []\<rparr>
     (getKey example_driver ''/a'') = Some [1] \<and>
   getKey example_driver ''/a'' \<noteq> getKey example_driver ''/b'' \<and>
   fst (Move example_driver ''/a'' ''/b''
     \<lparr>objects = [(''reg/a'', [1]), (''reg/b'', [2])], faults = [], calls = []\<rparr>) = None \<and>
   calls (snd (Move example_driver ''/a'' ''/b''
     \<lparr>objects = [(''reg/a'', [1]), (''reg/b'', [2])], faults = [], calls = []\<rparr>)) =
     [CallStat ''reg/a'', CallDelete ''reg/b'', CallMove ''reg/a'' ''reg/b''] \<and>
   stored (snd (Move example_driver ''/a'' ''/b''
     \<lparr>objects = [(''reg/a'', [1]), (''reg/b'', [2])], faults = [], calls = []\<rparr>)) ''reg/b'' = Some [1] \<and>
   stored (snd (Move example_driver ''/a'' ''/b''
     \<lparr>objects = [(''reg/a'', [1]), (''reg/b'', [2])], faults = [], calls = []\<rparr>)) ''reg/a'' = None"
proof -
  let ?r = "\<lparr>objects = [(''reg/a'', [1 :: byte]), (''reg/b'', [2])], faults = [], calls = []\<rparr>"
  have h1: "faults ?r = []" by simp
  have h2: "stored ?r (getKey example_driver ''/x'') = None" by (simp add: stored_def example_key)
  have h3: "stored ?r (getKey example_driver ''/a'') = Some [1]" by (simp add: stored_def example_key)
  have h4: "getKey example_driver ''/a'' \<noteq> getKey example_driver ''/b''" by (simp add: example_key)
  have c1: "Move example_driver ''/x'' ''/b'' ?r =
     (Some (PathNotFoundError ''/x''),
      \<lparr>objects = [(''reg/a'', [1]), (''reg/b'', [2])], faults = [], calls = [CallStat ''reg/x'']\<rparr>)"
    using Move_overwrites[OF h1, where d = example_driver and sourcePath = "''/x''"
      and destPath = "''/b''"] h2
    by (simp add: example_key called_def)
  note w = Move_overwrites[OF h1, where d = example_driver and sourcePath = "''/a''"
      and c = "[1]" and destPath = "''/b''", THEN conjunct2, rule_format, OF h3]
  have c2: "calls (snd (Move example_driver ''/a'' ''/b'' ?r)) =
     [CallStat ''reg/a'', CallDelete ''reg/b'', CallMove ''reg/a'' ''reg/b'']"
    using w by (simp add: example_key)
  have c3: "fst (Move example_driver ''/a'' ''/b'' ?r) = None \<and>
     stored (snd (Move example_driver ''/a'' ''/b'' ?r)) ''reg/b'' = Some [1] \<and>
     stored (snd (Move example_driver ''/a'' ''/b'' ?r)) ''reg/a'' = None"
    using w h4 by (simp add: example_key)
  show ?thesis using h1 h2 h3 h4 c1 c2 c3 by blast
qed

text \<open>
  Claim C10 says that Move overwrites the destination: an object stored at the
  destination is deleted and the source object takes its place. The code does not
  treat the case where source and destination are one path: the delete of the
  destination removes the source object itself, the remote move then finds no source,
  and Move returns "path not found" for a source that existed. The only copy is lost.
\<close>

theorem Move_onto_itself:
  "stored \<lparr>objects = [(''reg/a'', [1])], faults = [], calls = []\<rparr>
     (getKey example_driver ''/a'') = Some [1] \<and>
   Move example_driver ''/a'' ''/a''
     \<lparr>objects = [(''reg/a'', [1])], faults = [], calls = []\<rparr> =
     (Some (PathNotFoundError ''/a''),
      \<lparr>objects = [], faults = [],
       calls = [CallStat ''reg/a'', CallDelete ''reg/a'', CallMove ''reg/a'' ''reg/a'']\<rparr>)"
  by (simp add: Move_def bucket_Stat_nofault bucket_Delete_nofault bucket_Move_def fault_def
      called_def del_object_def parseError_def stored_def example_key)

subsection \<open>Stat\<close>

lemma Stat_dir:
  assumes "faults r = []" and "map_of (objects r) (getKey d path) = None"
    and "k \<in> fst ` set (objects r)" and "prefix (getKey d path) k"
  shows "Stat d path r =
           (Inr \<lparr>Path = path, Size = 0, IsDir = True\<rparr>,
            called (CallList (getKey d path) [] [] 1) r)"
proof -
  let ?ks = "matching (objects r) (getKey d path) []"
  have "k \<in> set ?ks" using assms(3,4) by (simp add: set_matching)
  then obtain a rest where ks: "?ks = a # rest" by (cases ?ks) auto
  then have "a \<in> set ?ks" by simp
  then have "a \<in> fst ` set (objects r)" by (simp add: set_matching)
  then have "a \<noteq> getKey d path" using assms(2) by (metis map_of_eq_None_iff)
  then show ?thesis using assms(1) ks by (simp add: Stat_nofault)
qed

text \<open>
  Claim C8, as amended. With calls that run without a fault: Stat reports a file
  (\<open>IsDir\<close> false, with the object's size) when the exact key is stored, whatever other
  keys extend it; it reports a directory (\<open>IsDir\<close> true, size 0) when the exact key is
  not stored and some stored key starts with the key followed by the path separator;
  and it returns "path not found" when no stored key starts with the key.
\<close>

theorem Stat_IsDir:
  assumes "faults r = []"
  shows "(stored r (getKey d path) = Some c \<longrightarrow>
            fst (Stat d path r) = Inr \<lparr>Path = path, Size = of_nat (length c), IsDir = False\<rparr>) \<and>
         (stored r (getKey d path) = None \<and>
          (\<exists>k \<in> fst ` set (objects r). prefix (getKey d path @ ''/'') k) \<longrightarrow>
            fst (Stat d path r) = Inr \<lparr>Path = path, Size = 0, IsDir = True\<rparr>) \<and>
         ((\<forall>k \<in> fst ` set (objects r). \<not> prefix (getKey d path) k) \<longrightarrow>
            fst (Stat d path r) = Inl (PathNotFoundError path))"
proof (intro conjI impI)
  assume "stored r (getKey d path) = Some c"
  then show "fst (Stat d path r) = Inr \<lparr>Path = path, Size = of_nat (length c), IsDir = False\<rparr>"
    using assms by (simp add: Stat_file stored_def)
next
  assume a: "stored r (getKey d path) = None \<and>
          (\<exists>k \<in> fst ` set (objects r). prefix (getKey d path @ ''/'') k)"
  then obtain k where k: "k \<in> fst ` set (objects r)" "prefix (getKey d path @ ''/'') k" by blast
  from k(2) have "prefix (getKey d path) k" by (rule append_prefixD)
  with a k(1) show "fst (Stat d path r) = Inr \<lparr>Path = path, Size = 0, IsDir = True\<rparr>"
    using assms by (simp add: Stat_dir stored_def)
next
  assume "\<forall>k \<in> fst ` set (objects r). \<not> prefix (getKey d path) k"
  then show "fst (Stat d path r) = Inl (PathNotFoundError path)"
    using assms by (simp add: Stat_notfound)
qed

theorem Stat_IsDir_witness:
  "faults \<lparr>objects = [(''reg/a'', [7]), (''reg/a/b'', [8, 9])], faults = [], calls = []\<rparr> = [] \<and>
   stored \<lparr>objects = [(''reg/a'', [7]), (''reg/a/b'', [8, 9])], faults = [], calls = []\<rparr>
     (getKey example_driver ''/a'') = Some [7] \<and>
   fst (Stat example_driver ''/a''
     \<lparr>objects = [(''reg/a'', [7]), (''reg/a/b'', [8, 9])], faults = [], calls = []\<rparr>) =
     Inr \<lparr>Path = ''/a'', Size = 1, IsDir = False\<rparr> \<and>
   stored \<lparr>objects = [(''reg/a/b'', [8, 9])], faults = [], calls = []\<rparr>
     (getKey example_driver ''/a'') = None \<and>
   prefix (getKey example_driver ''/a'' @ ''/'') ''reg/a/b'' \<and>
   fst (Stat example_driver ''/a''
     \<lparr>objects = [(''reg/a/b'', [8, 9])], faults = [], calls = []\<rparr>) =
     Inr \<lparr>Path = ''/a'', Size = 0, IsDir = True\<rparr> \<and>
   \<not> prefix (getKey example_driver ''/c'') ''reg/a/b'' \<and>
   fst (Stat example_driver ''/c''
     \<lparr>objects = [(''reg/a/b'', [8, 9])], faults = [], calls = []\<rparr>) =
     Inl (PathNotFoundError ''/c'')"
proof -
  let ?r = "\<lparr>objects = [(''reg/a'', [7 :: byte]), (''reg/a/b'', [8, 9])], faults = [], calls = []\<rparr>"
  let ?q = "\<lparr>objects = [(''reg/a/b'', [8, 9 :: byte])], faults = [], calls = []\<rparr>"
  have h1: "faults ?r = []" and h1': "faults ?q = []" by simp_all
  have h2: "stored ?r (getKey example_driver ''/a'') = Some [7]" by (simp add: stored_def example_key)
  have h3: "stored ?q (getKey example_driver ''/a'') = None" by (simp add: stored_def example_key)
  have h4: "prefix (getKey example_driver ''/a'' @ ''/'') ''reg/a/b''" by (simp add: example_key)
  have h5: "\<not> prefix (getKey example_driver ''/c'') ''reg/a/b''" by (simp add: example_key)
  have c1: "fst (Stat example_driver ''/a'' ?r) = Inr \<lparr>Path = ''/a'', Size = 1, IsDir = False\<rparr>"
    using Stat_IsDir[OF h1, where d = example_driver and path = "''/a''" and c = "[7]"] h2
    by simp
  have c2: "fst (Stat example_driver ''/a'' ?q) = Inr \<lparr>Path = ''/a'', Size = 0, IsDir = True\<rparr>"
    using Stat_IsDir[OF h1', where d = example_driver and path = "''/a''"] h3 h4
    by simp
  have c3: "fst (Stat example_driver ''/c'' ?q) = Inl (PathNotFoundError ''/c'')"
    using Stat_IsDir[OF h1', where d = example_driver and path = "''/c''"] h5
    by simp
  show ?thesis using h1 h2 h3 h4 h5 c1 c2 c3 by blast
qed

text \<open>
  The claim as stated fails in both directions. With the keys \<^verbatim>\<open>reg/a\<close> and
  \<^verbatim>\<open>reg/a/b\<close> stored, the path \<^verbatim>\<open>/a\<close> is reported as a file although another key
  extends it after a separator. With only \<^verbatim>\<open>reg/ab\<close> stored, the path \<^verbatim>\<open>/a\<close> is
  reported as a directory although no key has \<^verbatim>\<open>reg/a/\<close> as a prefix.
\<close>

theorem Stat_IsDir_counterexample:
  "fst (Stat example_driver ''/a''
     \<lparr>objects = [(''reg/a'', [7]), (''reg/a/b'', [8, 9])], faults = [], calls = []\<rparr>) =
     Inr \<lparr>Path = ''/a'', Size = 1, IsDir = False\<rparr> \<and>
   prefix (getKey example_driver ''/a'' @ ''/'') ''reg/a/b'' \<and>
   ''reg/a/b'' \<noteq> getKey example_driver ''/a'' \<and>
   fst (Stat example_driver ''/a''
     \<lparr>objects = [(''reg/ab'', [7])], faults = [], calls = []\<rparr>) =
     Inr \<lparr>Path = ''/a'', Size = 0, IsDir = True\<rparr> \<and>
   \<not> prefix (getKey example_driver ''/a'' @ ''/'') ''reg/ab''"
proof -
  let ?r = "\<lparr>objects = [(''reg/a'', [7 :: byte]), (''reg/a/b'', [8, 9])], faults = [], calls = []\<rparr>"
  let ?q = "\<lparr>objects = [(''reg/ab'', [7 :: byte])], faults = [], calls = []\<rparr>"
  have c1: "fst (Stat example_driver ''/a'' ?r) = Inr \<lparr>Path = ''/a'', Size = 1, IsDir = False\<rparr>"
    using Stat_file[of ?r example_driver "''/a''" "[7]"] by (simp add: example_key)
  have c2: "fst (Stat example_driver ''/a'' ?q) = Inr \<lparr>Path = ''/a'', Size = 0, IsDir = True\<rparr>"
    using Stat_dir[of ?q example_driver "''/a''" "''reg/ab''"] by (simp add: example_key)
  show ?thesis using c1 c2 by (simp add: example_key)
qed

subsection \<open>Delete\<close>

lemma delete_items_nofault:
  "faults r = [] \<Longrightarrow>
   fst (delete_items items r) = None \<and>
   faults (snd (delete_items items r)) = [] \<and>
   objects (snd (delete_items items r)) =
     filter (\<lambda>kv. fst kv \<notin> Key ` set items) (objects r)"
proof (induction items arbitrary: r)
  case Nil
  then show ?case by simp
next
  case (Cons item items)
  obtain err r' where del: "bucket_Delete (Key item) r = (err, r')"
    by (cases "bucket_Delete (Key item) r")
  note after = bucket_Delete_after[OF Cons.prems del]
  have step: "delete_items (item # items) r = delete_items items r'"
    using del after(4) by auto
  have "filter (\<lambda>kv. fst kv \<notin> Key ` set items) (del_object (Key item) (objects r)) =
        filter (\<lambda>kv. fst kv \<notin> Key ` set (item # items)) (objects r)"
    by (auto simp: del_object_def intro: filter_cong)
  then show ?case unfolding step using Cons.IH[OF after(1)] after(2) by simp
qed

lemma sorted_take_last_less:
  fixes xs :: "string list"
  assumes "sorted xs" and "distinct xs" and "take n xs \<noteq> []"
    and "x \<in> set xs" and "x \<notin> set (take n xs)"
  shows "last (take n xs) < x"
proof -
  have xs: "xs = take n xs @ drop n xs" by simp
  with assms(4,5) have xd: "x \<in> set (drop n xs)" by (metis Un_iff set_append)
  have lt: "last (take n xs) \<in> set (take n xs)" using assms(3) by simp
  have "sorted (take n xs @ drop n xs)" using assms(1) by simp
  then have "last (take n xs) \<le> x" using lt xd unfolding sorted_append by blast
  moreover have "last (take n xs) \<noteq> x" using lt assms(5) by auto
  ultimately show ?thesis by simp
qed


lemma listMax_pos: "0 < listMax"
  by (simp add: listMax_def)

lemma listMax_neq0: "listMax \<noteq> 0"
  by (simp add: listMax_def)

lemma last_page_nonempty:
  fixes ks :: "string list"
  assumes "sorted ks" and "distinct ks" and "listMax < length ks"
  shows "last (take listMax ks) \<noteq> []"
proof -
  have len: "length (take listMax ks) = listMax" using assms(3) by simp
  then have "take listMax ks \<noteq> []" using listMax_pos by auto
  then have "last (take listMax ks) = take listMax ks ! (listMax - 1)"
    using len by (simp add: last_conv_nth)
  then have l: "last (take listMax ks) = ks ! (listMax - 1)" using listMax_pos by simp
  have "sorted_wrt (<) ks" using assms(1,2) by (simp add: strict_sorted_iff)
  moreover have "0 < listMax - 1" by (simp add: listMax_def)
  moreover have "listMax - 1 < length ks" using assms(3) by simp
  ultimately have "ks ! 0 < ks ! (listMax - 1)" by (rule sorted_wrt_nth_less)
  then show ?thesis unfolding l by auto
qed

lemma bucket_List_nodelim:
  assumes "faults r = []"
  shows "bucket_List pre [] marker listMax r =
     ((map (\<lambda>k. \<lparr>Key = k, Fsize = fsize (objects r) k\<rparr>) (take listMax (matching (objects r) pre marker)),
       [],
       (if length (matching (objects r) pre marker) \<le> listMax then []
        else last (take listMax (matching (objects r) pre marker))),
       (if length (matching (objects r) pre marker) \<le> listMax then Some EOF else None)),
      called (CallList pre [] marker listMax) r)"
proof -
  let ?ks = "matching (objects r) pre marker"
  have pe: "(length ?ks \<le> listMax \<or> take listMax ?ks = []) = (length ?ks \<le> listMax)"
    using listMax_neq0 by auto
  have lastne: "listMax < length ?ks \<Longrightarrow> last (take listMax ?ks) \<noteq> []"
    by (rule last_page_nonempty[OF sorted_matching distinct_matching])
  have lp: "list_page (objects r) pre [] marker listMax =
     (map (\<lambda>k. \<lparr>Key = k, Fsize = fsize (objects r) k\<rparr>) (take listMax ?ks), [],
      if length ?ks \<le> listMax then [] else last (take listMax ?ks))"
    unfolding list_page_nodelim pe ..
  show ?thesis
  proof (cases "length ?ks \<le> listMax")
    case True
    then show ?thesis unfolding bucket_List_nofault[OF assms] lp by simp
  next
    case False
    then have "last (take listMax ?ks) \<noteq> []" using lastne by simp
    with False show ?thesis unfolding bucket_List_nofault[OF assms] lp by simp
  qed
qed

lemma Delete_loop_nofault:
  assumes "faults r = []"
  shows "Delete_loop d path marker cnt r =
     (let ks = matching (objects r) (getKey d path) marker;
          page = take listMax ks;
          r1 = called (CallList (getKey d path) [] marker listMax) r;
          r2 = snd (delete_items (map (\<lambda>k. \<lparr>Key = k, Fsize = fsize (objects r) k\<rparr>) page) r1)
      in if cnt + length page = 0 then (Some (PathNotFoundError path), r1)
         else if length ks \<le> listMax then (None, r2)
         else Delete_loop d path (last page) (cnt + length page) r2)"
proof -
  let ?ks = "matching (objects r) (getKey d path) marker"
  let ?page = "take listMax ?ks"
  let ?r1 = "called (CallList (getKey d path) [] marker listMax) r"
  let ?items = "map (\<lambda>k. \<lparr>Key = k, Fsize = fsize (objects r) k\<rparr>) ?page"
  have f1: "faults ?r1 = []" using assms by simp
  obtain r2 where di: "delete_items ?items ?r1 = (None, r2)"
    using delete_items_nofault[OF f1, of ?items] by (metis prod.collapse)
  have lastne: "listMax < length ?ks \<Longrightarrow> last ?page \<noteq> []"
    by (rule last_page_nonempty[OF sorted_matching distinct_matching])
  have len: "length ?items = length ?page" by simp
  show ?thesis
  proof (cases "length ?ks \<le> listMax")
    case True
    show ?thesis
      apply (subst Delete_loop.simps)
      apply (simp only: bucket_List_nodelim[OF assms] True if_True Let_def prod.case di len snd_conv)
      apply (auto simp: listMax_neq0 min_def split: if_splits)
      done
  next
    case False
    then have "last ?page \<noteq> []" using lastne by simp
    then show ?thesis
      apply (subst Delete_loop.simps)
      apply (simp only: bucket_List_nodelim[OF assms] False if_False Let_def prod.case di len snd_conv)
      apply (auto simp: listMax_neq0 min_def split: if_splits)
      done
  qed
qed


lemma matching_next_page:
  fixes objs :: "(string \<times> byte list) list"
  assumes ks_def: "ks = matching objs K marker" and "listMax < length ks"
  shows "set (matching (filter (\<lambda>kv. fst kv \<notin> set (take listMax ks)) objs) K (last (take listMax ks)))
           = set ks - set (take listMax ks)"
proof -
  let ?page = "take listMax ks" and ?m = "last (take listMax ks)"
  have srt: "sorted ks" and dst: "distinct ks"
    unfolding ks_def by (rule sorted_matching, rule distinct_matching)
  have mne: "?m \<noteq> []" using last_page_nonempty[OF srt dst assms(2)] .
  have pne: "?page \<noteq> []" using assms(2) listMax_pos by auto
  then have mks: "?m \<in> set ks" by (meson in_set_takeD last_in_set)
  have keys: "fst ` set (filter (\<lambda>kv. fst kv \<notin> set ?page) objs) = fst ` set objs - set ?page"
    by auto
  show ?thesis
  proof (intro set_eqI iffI)
    fix k assume "k \<in> set (matching (filter (\<lambda>kv. fst kv \<notin> set ?page) objs) K ?m)"
    then have k: "k \<in> fst ` set objs" "k \<notin> set ?page" "prefix K k" "?m < k"
      using mne unfolding set_matching keys by auto
    from mks have "marker = [] \<or> marker < ?m" unfolding ks_def set_matching by auto
    with k(4) have "marker = [] \<or> marker < k" by (auto intro: less_trans)
    with k show "k \<in> set ks - set ?page" unfolding ks_def set_matching by auto
  next
    fix k assume a: "k \<in> set ks - set ?page"
    then have "?m < k" using sorted_take_last_less[OF srt dst pne] by auto
    moreover from a have "k \<in> fst ` set objs" "prefix K k" unfolding ks_def set_matching by auto
    ultimately show "k \<in> set (matching (filter (\<lambda>kv. fst kv \<notin> set ?page) objs) K ?m)"
      using a unfolding set_matching keys by auto
  qed
qed

lemma Delete_loop_removes:
  assumes "faults r = []" and "0 < cnt \<or> matching (objects r) (getKey d path) marker \<noteq> []"
  shows "fst (Delete_loop d path marker cnt r) = None \<and>
         objects (snd (Delete_loop d path marker cnt r)) =
           filter (\<lambda>kv. fst kv \<notin> set (matching (objects r) (getKey d path) marker)) (objects r)"
  using assms
proof (induction "length (matching (objects r) (getKey d path) marker)"
    arbitrary: r marker cnt rule: less_induct)
  case less
  let ?K = "getKey d path"
  let ?ks = "matching (objects r) ?K marker"
  let ?page = "take listMax ?ks"
  let ?r1 = "called (CallList ?K [] marker listMax) r"
  let ?items = "map (\<lambda>k. \<lparr>Key = k, Fsize = fsize (objects r) k\<rparr>) ?page"
  let ?r2 = "snd (delete_items ?items ?r1)"
  have f1: "faults ?r1 = []" using less.prems(1) by simp
  have keyitems: "Key ` set ?items = set ?page" by (auto simp: image_image)
  from delete_items_nofault[OF f1, of ?items]
  have f2: "faults ?r2 = []"
    and o2: "objects ?r2 = filter (\<lambda>kv. fst kv \<notin> set ?page) (objects r)"
    unfolding keyitems by simp_all
  have nz: "cnt + length ?page \<noteq> 0" using less.prems(2) listMax_neq0 by (cases ?ks) auto
  show ?case
  proof (cases "length ?ks \<le> listMax")
    case True
    then have "?page = ?ks" by simp
    have "Delete_loop d path marker cnt r = (None, ?r2)"
      by (simp only: Delete_loop_nofault[OF less.prems(1)] Let_def nz True if_False if_True)
    then show ?thesis
      using o2 \<open>?page = ?ks\<close> by simp
  next
    case False
    then have gt: "listMax < length ?ks" by simp
    let ?m = "last ?page"
    have step: "Delete_loop d path marker cnt r = Delete_loop d path ?m (cnt + length ?page) ?r2"
      by (simp only: Delete_loop_nofault[OF less.prems(1), of d path marker cnt] Let_def nz False if_False)
    have nxt: "set (matching (objects ?r2) ?K ?m) = set ?ks - set ?page"
      unfolding o2 using matching_next_page[OF refl gt] .
    have "?page \<noteq> []" using gt listMax_pos by auto
    then obtain x where x: "x \<in> set ?page" by (meson last_in_set)
    then have "x \<in> set ?ks" by (rule in_set_takeD)
    with x have "set ?ks - set ?page \<subset> set ?ks" by blast
    then have "card (set (matching (objects ?r2) ?K ?m)) < card (set ?ks)"
      unfolding nxt by (intro psubset_card_mono) simp_all
    then have shorter: "length (matching (objects ?r2) ?K ?m) < length ?ks"
      by (simp add: distinct_card distinct_matching)
    have pos: "0 < cnt + length ?page \<or> matching (objects ?r2) ?K ?m \<noteq> []" using nz by simp
    note ih = less.hyps[OF shorter f2 pos]
    have "filter (\<lambda>kv. fst kv \<notin> set (matching (objects ?r2) ?K ?m)) (objects ?r2) =
          filter (\<lambda>kv. fst kv \<notin> set ?ks) (objects r)"
      unfolding o2 matching_next_page[OF refl gt]
      by (auto simp: filter_filter intro!: filter_cong dest: in_set_takeD)
    with ih show ?thesis unfolding step by simp
  qed
qed


text \<open>
  What Delete does without a fault, a key matching a path when it starts with the
  path's key as a string: when no stored key matches, Delete returns "path not found"
  for the path after one listing request; when at least one stored key matches, Delete
  returns success and the store afterwards holds exactly the objects whose keys do not
  match, however many result pages the listing takes.
\<close>

lemma Delete_all:
  assumes "faults r = []"
  shows "((\<forall>k \<in> fst ` set (objects r). \<not> prefix (getKey d path) k) \<longrightarrow>
            Delete d path r =
              (Some (PathNotFoundError path), called (CallList (getKey d path) [] [] listMax) r)) \<and>
         ((\<exists>k \<in> fst ` set (objects r). prefix (getKey d path) k) \<longrightarrow>
            fst (Delete d path r) = None \<and>
            objects (snd (Delete d path r)) =
              filter (\<lambda>kv. \<not> prefix (getKey d path) (fst kv)) (objects r))"
proof (intro conjI impI)
  assume "\<forall>k \<in> fst ` set (objects r). \<not> prefix (getKey d path) k"
  then have "set (matching (objects r) (getKey d path) []) = {}" by (auto simp: set_matching)
  then have "matching (objects r) (getKey d path) [] = []" by simp
  then show "Delete d path r =
      (Some (PathNotFoundError path), called (CallList (getKey d path) [] [] listMax) r)"
    unfolding Delete_def Delete_loop_nofault[OF assms] Let_def by simp
next
  assume ex: "\<exists>k \<in> fst ` set (objects r). prefix (getKey d path) k"
  then have "set (matching (objects r) (getKey d path) []) \<noteq> {}" by (auto simp: set_matching)
  then have ne: "0 < (0::nat) \<or> matching (objects r) (getKey d path) [] \<noteq> []" by auto
  note rm = Delete_loop_removes[OF assms ne]
  have "filter (\<lambda>kv. fst kv \<notin> set (matching (objects r) (getKey d path) [])) (objects r) =
        filter (\<lambda>kv. \<not> prefix (getKey d path) (fst kv)) (objects r)"
    by (auto simp: set_matching intro!: filter_cong)
  with rm show "fst (Delete d path r) = None"
    and "objects (snd (Delete d path r)) =
              filter (\<lambda>kv. \<not> prefix (getKey d path) (fst kv)) (objects r)"
    unfolding Delete_def by simp_all
qed

lemma Delete_all_example:
  "faults \<lparr>objects = [(''reg/a'', [1]), (''reg/a/b'', [2]), (''reg/c'', [3])],
           faults = [], calls = []\<rparr> = [] \<and>
   prefix (getKey example_driver ''/a'') ''reg/a/b'' \<and>
   fst (Delete example_driver ''/a''
     \<lparr>objects = [(''reg/a'', [1]), (''reg/a/b'', [2]), (''reg/c'', [3])],
      faults = [], calls = []\<rparr>) = None \<and>
   objects (snd (Delete example_driver ''/a''
     \<lparr>objects = [(''reg/a'', [1]), (''reg/a/b'', [2]), (''reg/c'', [3])],
      faults = [], calls = []\<rparr>)) = [(''reg/c'', [3])] \<and>
   \<not> prefix (getKey example_driver ''/x'') ''reg/a'' \<and>
   \<not> prefix (getKey example_driver ''/x'') ''reg/a/b'' \<and>
   \<not> prefix (getKey example_driver ''/x'') ''reg/c'' \<and>
   fst (Delete example_driver ''/x''
     \<lparr>objects = [(''reg/a'', [1]), (''reg/a/b'', [2]), (''reg/c'', [3])],
      faults = [], calls = []\<rparr>) = Some (PathNotFoundError ''/x'')"
proof -
  let ?r = "\<lparr>objects = [(''reg/a'', [1 :: byte]), (''reg/a/b'', [2]), (''reg/c'', [3])],
           faults = [], calls = []\<rparr>"
  have h1: "faults ?r = []" by simp
  have h2: "prefix (getKey example_driver ''/a'') ''reg/a/b''" by (simp add: example_key)
  have h3: "\<not> prefix (getKey example_driver ''/x'') ''reg/a''"
    "\<not> prefix (getKey example_driver ''/x'') ''reg/a/b''"
    "\<not> prefix (getKey example_driver ''/x'') ''reg/c''"
    by (simp_all add: example_key)
  have c1: "fst (Delete example_driver ''/a'' ?r) = None \<and>
      objects (snd (Delete example_driver ''/a'' ?r)) = [(''reg/c'', [3])]"
    using Delete_all[OF h1, where d = example_driver and path = "''/a''"] h2
    by (simp add: example_key)
  have c2: "fst (Delete example_driver ''/x'' ?r) = Some (PathNotFoundError ''/x'')"
    using Delete_all[OF h1, where d = example_driver and path = "''/x''"] h3
    by simp
  show ?thesis using h1 h2 h3 c1 c2 by blast
qed

text \<open>
  Claim C7 says that Delete on a path under which no key exists returns "path not
  found". The code lists the keys that start with the path's key, without a separator:
  with only \<^verbatim>\<open>reg/ab\<close> and \<^verbatim>\<open>reg/b\<close> stored, nothing is stored at \<^verbatim>\<open>/a\<close> or below
  it, yet Delete on \<^verbatim>\<open>/a\<close> returns success and removes \<^verbatim>\<open>reg/ab\<close>.
\<close>

theorem Delete_sibling_key:
  "stored \<lparr>objects = [(''reg/ab'', [1]), (''reg/b'', [2])], faults = [], calls = []\<rparr>
     (getKey example_driver ''/a'') = None \<and>
   \<not> prefix (getKey example_driver ''/a'' @ ''/'') ''reg/ab'' \<and>
   \<not> prefix (getKey example_driver ''/a'' @ ''/'') ''reg/b'' \<and>
   fst (Delete example_driver ''/a''
     \<lparr>objects = [(''reg/ab'', [1]), (''reg/b'', [2])], faults = [], calls = []\<rparr>) = None \<and>
   objects (snd (Delete example_driver ''/a''
     \<lparr>objects = [(''reg/ab'', [1]), (''reg/b'', [2])], faults = [], calls = []\<rparr>)) =
     [(''reg/b'', [2])]"
proof -
  let ?r = "\<lparr>objects = [(''reg/ab'', [1 :: byte]), (''reg/b'', [2])], faults = [], calls = []\<rparr>"
  have h1: "faults ?r = []" by simp
  have h2: "prefix (getKey example_driver ''/a'') ''reg/ab''" by (simp add: example_key)
  have c: "fst (Delete example_driver ''/a'' ?r) = None \<and>
      objects (snd (Delete example_driver ''/a'' ?r)) = [(''reg/b'', [2])]"
    using Delete_all[OF h1, where d = example_driver and path = "''/a''"] h2
    by (simp add: example_key)
  then show ?thesis by (simp add: stored_def example_key)
qed

subsection \<open>List\<close>

lemma getKey_root:
  assumes "getKey d [] \<noteq> []"
  shows "getKey d p = getKey d [] @ p"
proof -
  from assms have "dropWhile (\<lambda>c. c = CHR ''/'') (RootDirectory d) \<noteq> []"
    by (simp add: getKey_def TrimLeft_def)
  then obtain x where "x \<in> set (RootDirectory d)" "x \<noteq> CHR ''/''"
    by (auto simp: dropWhile_eq_Nil_conv)
  then show ?thesis
    by (simp add: getKey_def TrimLeft_def dropWhile_append1)
qed

lemma Replace1_prefix:
  assumes "old \<noteq> []" and "prefix old s"
  shows "Replace1 s old new = new @ drop (length old) s"
  using assms by (cases s) auto

lemma Index_None: "Index s ''/'' = None \<Longrightarrow> CHR ''/'' \<notin> set s"
  by (induction s) (auto split: if_splits)

lemma Index_Some:
  "Index s ''/'' = Some i \<Longrightarrow> i < length s \<and> s ! i = CHR ''/'' \<and> CHR ''/'' \<notin> set (take i s)"
proof (induction s arbitrary: i)
  case Nil
  then show ?case by simp
next
  case (Cons c cs)
  show ?case
  proof (cases "c = CHR ''/''")
    case True
    with Cons.prems show ?thesis by simp
  next
    case False
    with Cons.prems obtain j where j: "Index cs ''/'' = Some j" "i = Suc j" by auto
    from Cons.IH[OF j(1)] False j(2) show ?thesis by simp
  qed
qed

lemma page_items:
  assumes "list_page objs P ''/'' marker limit = (items, dirs, m)" and "it \<in> set items"
  shows "Key it \<in> set (matching objs P marker) \<and> Index (drop (length P) (Key it)) ''/'' = None"
proof -
  let ?gs = "rollup (entry_of P ''/'') (matching objs P marker)"
  from assms obtain g where g: "g \<in> set (take limit ?gs)" "it \<in> set (item_of objs (fst g))"
    by (auto simp: list_page_def Let_def)
  obtain e l where el: "g = (e, l)" by (cases g)
  from g(1) have "(e, l) \<in> set ?gs" unfolding el by (rule in_set_takeD)
  then have l: "l \<in> set (matching objs P marker)" "e = entry_of P ''/'' l"
    by (auto dest: rollup_mem)
  from g(2) el obtain k where k: "e = Item k" "Key it = k" by (cases e) auto
  with l(2) have "k = l \<and> Index (drop (length P) l) ''/'' = None"
    by (auto simp: entry_of_def split: option.splits)
  with l(1) k show ?thesis by simp
qed

lemma page_dirs:
  assumes "list_page objs P ''/'' marker limit = (items, dirs, m)" and "p \<in> set dirs"
  shows "\<exists>k i. k \<in> set (matching objs P marker) \<and> Index (drop (length P) k) ''/'' = Some i \<and>
           p = take (length P + i + 1) k"
proof -
  let ?gs = "rollup (entry_of P ''/'') (matching objs P marker)"
  from assms obtain g where g: "g \<in> set (take limit ?gs)" "p \<in> set (prefix_of (fst g))"
    by (auto simp: list_page_def Let_def)
  obtain e l where el: "g = (e, l)" by (cases g)
  from g(1) have "(e, l) \<in> set ?gs" unfolding el by (rule in_set_takeD)
  then have l: "l \<in> set (matching objs P marker)" "e = entry_of P ''/'' l"
    by (auto dest: rollup_mem)
  from g(2) el have e: "e = CommonPrefix p" by (cases e) auto
  with l(2) obtain i where "Index (drop (length P) l) ''/'' = Some i" "p = take (length P + i + 1) l"
    by (auto simp: entry_of_def split: option.splits)
  with l(1) show ?thesis by blast
qed


lemma item_entry:
  assumes "getKey d [] \<noteq> []" and "prefix (getKey d []) k"
    and "path_ok (drop (length (getKey d [])) k)"
  shows "path_ok (Replace1 k (getKey d []) []) \<and> getKey d [] @ Replace1 k (getKey d []) [] = k"
proof -
  have "Replace1 k (getKey d []) [] = drop (length (getKey d [])) k"
    using Replace1_prefix[OF assms(1,2), of "[]"] by simp
  moreover have "getKey d [] @ drop (length (getKey d [])) k = k"
    using assms(2) by (auto simp: prefix_def)
  ultimately show ?thesis using assms(3) by simp
qed

lemma TrimSuffix_slash: "TrimSuffix (xs @ ''/'') ''/'' = xs"
  by (simp add: TrimSuffix_def HasSuffix_def suffix_def)

lemma dir_entry:
  assumes R: "R \<noteq> []" and pk: "prefix (R @ dir) k"
    and ok: "path_ok (drop (length R) k)"
    and dir: "dir \<noteq> []" "hd dir = CHR ''/''" "last dir = CHR ''/''"
    and ix: "Index (drop (length (R @ dir)) k) ''/'' = Some i"
  shows "path_ok (Replace1 (TrimSuffix (take (length (R @ dir) + i + 1) k) ''/'') R []) \<and>
         prefix (R @ Replace1 (TrimSuffix (take (length (R @ dir) + i + 1) k) ''/'') R []) k"
proof -
  from pk obtain rest where k: "k = R @ dir @ rest" by (auto simp: prefix_def)
  have rest: "drop (length (R @ dir)) k = rest" by (simp add: k)
  from Index_Some[OF ix[unfolded rest]]
  have i: "i < length rest" "rest ! i = CHR ''/''" "CHR ''/'' \<notin> set (take i rest)" by auto
  let ?seg = "take i rest"
  have tk: "take (Suc i) rest = ?seg @ ''/''" using i(1,2) by (simp add: take_Suc_conv_app_nth)
  have p: "take (length (R @ dir) + i + 1) k = (R @ dir @ ?seg) @ ''/''"
    by (simp add: k tk)
  have ts: "TrimSuffix (take (length (R @ dir) + i + 1) k) ''/'' = R @ dir @ ?seg"
    unfolding p by (rule TrimSuffix_slash)
  have e: "Replace1 (R @ dir @ ?seg) R [] = dir @ ?seg"
    using Replace1_prefix[OF R, of "R @ dir @ ?seg" "[]"] by simp
  have stored: "drop (length R) k = dir @ rest" by (simp add: k)
  have pre: "prefix (dir @ ?seg) (dir @ rest)" by (simp add: take_is_prefix)
  have segne: "?seg \<noteq> []"
  proof
    assume "?seg = []"
    then have "i = 0" using i(1) by auto
    with i(1,2) obtain rest' where r': "rest = CHR ''/'' # rest'" by (cases rest) auto
    from dir(1,3) have "dir = butlast dir @ ''/''" by (metis append_butlast_last_id)
    then have "dir @ rest = butlast dir @ ''//'' @ rest'" unfolding r'
      by (metis append.assoc append_Cons append_Nil)
    then have "sublist ''//'' (dir @ rest)" unfolding sublist_def by metis
    with ok stored show False by (simp add: path_ok_def)
  qed
  have "last (dir @ ?seg) \<in> set ?seg" using segne by simp
  then have l: "last (dir @ ?seg) \<noteq> CHR ''/''" using i(3) by metis
  have h: "hd (dir @ ?seg) = CHR ''/''" using dir(1,2) by simp
  have ns: "\<not> sublist ''//'' (dir @ ?seg)"
  proof
    assume "sublist ''//'' (dir @ ?seg)"
    moreover have "sublist (dir @ ?seg) (dir @ rest)" using pre by (rule prefix_imp_sublist)
    ultimately have "sublist ''//'' (dir @ rest)" by (rule sublist_order.order.trans)
    with ok stored show False by (simp add: path_ok_def)
  qed
  have "path_ok (dir @ ?seg)" using dir(1) l h ns by (simp add: path_ok_def)
  moreover have "prefix (R @ dir @ ?seg) k" unfolding k by (simp add: take_is_prefix)
  ultimately show ?thesis unfolding ts e by simp
qed


lemma bucket_List_page:
  assumes "bucket_List pre delim marker limit r = ((items, dirs, m, err), r1)"
  shows "(items = [] \<and> dirs = []) \<or> list_page (objects r) pre delim marker limit = (items, dirs, m)"
  using assms
  by (auto simp: bucket_List_def fault_def called_def split: list.splits option.splits prod.splits)

lemma page_entries_ok:
  assumes R: "getKey d [] \<noteq> []"
    and keys: "\<forall>k \<in> fst ` set objs.
        prefix (getKey d [] @ ''/'') k \<longrightarrow> path_ok (drop (length (getKey d [])) k)"
    and dir: "dir \<noteq> []" "hd dir = CHR ''/''" "last dir = CHR ''/''"
    and lp: "list_page objs (getKey d dir) ''/'' marker limit = (items, dirs, m)"
  shows "\<forall>e \<in> (\<lambda>item. Replace1 (Key item) (getKey d []) []) ` set items \<union>
               (\<lambda>p. Replace1 (TrimSuffix p ''/'') (getKey d []) []) ` set dirs.
           path_ok e \<and> (\<exists>k \<in> fst ` set objs. prefix (getKey d [] @ e) k)"
proof (intro ballI)
  fix e
  assume "e \<in> (\<lambda>item. Replace1 (Key item) (getKey d []) []) ` set items \<union>
               (\<lambda>p. Replace1 (TrimSuffix p ''/'') (getKey d []) []) ` set dirs"
  then have ein: "e \<in> (\<lambda>item. Replace1 (Key item) (getKey d []) []) ` set items \<union>
               (\<lambda>p. Replace1 (TrimSuffix p ''/'') (getKey d []) []) ` set dirs" .
  have gk: "getKey d dir = getKey d [] @ dir" using R by (rule getKey_root)
  obtain dir' where sl: "dir = CHR ''/'' # dir'" using dir(1,2) by (cases dir) auto
  show "path_ok e \<and> (\<exists>k \<in> fst ` set objs. prefix (getKey d [] @ e) k)"
  proof -
    consider
      it where "it \<in> set items" "e = Replace1 (Key it) (getKey d []) []"
    | p where "p \<in> set dirs" "e = Replace1 (TrimSuffix p ''/'') (getKey d []) []"
      using ein by blast
    then show ?thesis
  proof cases
    case 1
    from page_items[OF lp 1(1)] have k: "Key it \<in> fst ` set objs"
      and pk: "prefix (getKey d [] @ dir) (Key it)"
      by (auto simp: set_matching gk)
    from pk have p1: "prefix (getKey d []) (Key it)" by (rule append_prefixD)
    from pk have "prefix (getKey d [] @ ''/'') (Key it)" unfolding sl by (auto simp: prefix_def)
    with keys k have "path_ok (drop (length (getKey d [])) (Key it))" by auto
    from item_entry[OF R p1 this] k show ?thesis unfolding 1(2) by (metis prefix_order.order_refl)
  next
    case 2
    from page_dirs[OF lp 2(1)] obtain k i where
      k: "k \<in> set (matching objs (getKey d dir) marker)"
      and ix: "Index (drop (length (getKey d dir)) k) ''/'' = Some i"
      and p: "p = take (length (getKey d dir) + i + 1) k" by blast
    from k have kk: "k \<in> fst ` set objs" and pk: "prefix (getKey d [] @ dir) k"
      by (auto simp: set_matching gk)
    from pk have "prefix (getKey d [] @ ''/'') k" unfolding sl by (auto simp: prefix_def)
    with keys kk have ok: "path_ok (drop (length (getKey d [])) k)" by auto
    from dir_entry[OF R pk ok dir ix[unfolded gk]] kk show ?thesis
      unfolding 2(2) p gk by blast
  qed
  qed
qed

lemma List_loop_entries:
  assumes "getKey d [] \<noteq> []"
    and "\<forall>k \<in> fst ` set (objects r).
        prefix (getKey d [] @ ''/'') k \<longrightarrow> path_ok (drop (length (getKey d [])) k)"
    and "dir \<noteq> []" "hd dir = CHR ''/''" "last dir = CHR ''/''"
    and "rootPrefix = []"
    and "\<forall>e \<in> set files \<union> set directories.
           path_ok e \<and> (\<exists>k \<in> fst ` set (objects r). prefix (getKey d [] @ e) k)"
    and "List_loop d dir rootPrefix marker files directories r = (Inr entries, r')"
  shows "\<forall>e \<in> set entries.
           path_ok e \<and> (\<exists>k \<in> fst ` set (objects r). prefix (getKey d [] @ e) k)"
  using assms
proof (induction d dir rootPrefix marker files directories r arbitrary: entries r'
    rule: List_loop.induct)
  case (1 d dir rootPrefix marker files directories r)
  let ?Q = "\<lambda>e. path_ok e \<and> (\<exists>k \<in> fst ` set (objects r). prefix (getKey d [] @ e) k)"
  obtain items dirs m err r1 where
    bl: "bucket_List (getKey d dir) ''/'' marker listMax r = ((items, dirs, m, err), r1)"
    by (metis prod.exhaust)
  have o1: "objects r1 = objects r" using bl by (rule bucket_List_objects)
  let ?files = "files @ map (\<lambda>item. Replace1 (Key item) (getKey d []) rootPrefix) items"
  let ?dirs = "directories @ map (\<lambda>p. Replace1 (TrimSuffix p ''/'') (getKey d []) rootPrefix) dirs"
  have new: "\<forall>e \<in> (\<lambda>item. Replace1 (Key item) (getKey d []) []) ` set items \<union>
               (\<lambda>p. Replace1 (TrimSuffix p ''/'') (getKey d []) []) ` set dirs. ?Q e"
  proof (cases "items = [] \<and> dirs = []")
    case True
    then show ?thesis by simp
  next
    case False
    with bucket_List_page[OF bl]
    have "list_page (objects r) (getKey d dir) ''/'' marker listMax = (items, dirs, m)" by blast
    from page_entries_ok[OF "1.prems"(1,2,3,4,5) this] show ?thesis .
  qed
  have inv: "\<forall>e \<in> set ?files \<union> set ?dirs. ?Q e"
    using new "1.prems"(7) unfolding \<open>rootPrefix = []\<close> by auto
  have nofail: "\<not> (err \<noteq> None \<and> err \<noteq> Some EOF)"
    using "1.prems"(8) bl by (subst (asm) List_loop.simps) (auto split: if_splits)
  show ?case
  proof (cases "m = []")
    case True
    then have "entries = ?files @ ?dirs"
      using "1.prems"(8) bl nofail by (subst (asm) List_loop.simps) (auto simp: Let_def)
    with inv show ?thesis by auto
  next
    case False
    then have rec: "List_loop d dir rootPrefix m ?files ?dirs r1 = (Inr entries, r')"
      using "1.prems"(8) bl nofail by (subst (asm) List_loop.simps) (auto simp: Let_def)
    have ih: "\<forall>e \<in> set entries.
        path_ok e \<and> (\<exists>k \<in> fst ` set (objects r1). prefix (getKey d [] @ e) k)"
      apply (rule "1.IH"[OF bl[symmetric] refl refl refl nofail refl refl False])
      using "1.prems"(1-6) inv rec unfolding o1 by auto
    then show ?thesis unfolding o1 .
  qed
qed


lemma root_key_hd: "getKey d [] \<noteq> [] \<Longrightarrow> hd (getKey d []) \<noteq> CHR ''/''"
  using hd_dropWhile[of "\<lambda>c. c = CHR ''/''" "RootDirectory d"]
  by (simp add: getKey_def TrimLeft_def)

text \<open>
  Claim C6. Let the root key be non-empty, let every stored key under the root be the
  key of a path in the host's syntax, and let List be called on the root path or on a
  path in the host's syntax. Then every entry List returns is a path in the host's
  syntax (it begins with \<^verbatim>\<open>/\<close> and does not end with \<^verbatim>\<open>/\<close>), it does not begin
  with the root key, and the root key followed by the entry is a stored key or a prefix
  of one: the root prefix, and nothing else, has been stripped.
\<close>

theorem List_entries:
  assumes "getKey d [] \<noteq> []"
    and "\<forall>k \<in> fst ` set (objects r).
        prefix (getKey d [] @ ''/'') k \<longrightarrow> path_ok (drop (length (getKey d [])) k)"
    and "path = ''/'' \<or> path_ok path"
    and "List d path r = (Inr entries, r')"
  shows "\<forall>e \<in> set entries.
           path_ok e \<and> \<not> prefix (getKey d []) e \<and>
           (\<exists>k \<in> fst ` set (objects r). prefix (getKey d [] @ e) k)"
proof -
  let ?dir = "if path \<noteq> ''/'' \<and> last path \<noteq> CHR ''/'' then path @ ''/'' else path"
  have ne: "path \<noteq> []" using assms(3) by (auto simp: path_ok_def)
  have dir: "?dir \<noteq> []" "hd ?dir = CHR ''/''" "last ?dir = CHR ''/''"
    using assms(3) by (auto simp: path_ok_def)
  have loop: "List_loop d ?dir [] [] [] [] r = (Inr entries, r')"
    using assms(4) assms(1) ne by (simp add: List_def Let_def)
  have ok: "\<forall>e \<in> set entries.
      path_ok e \<and> (\<exists>k \<in> fst ` set (objects r). prefix (getKey d [] @ e) k)"
    by (rule List_loop_entries[OF assms(1,2) dir refl _ loop]) simp
  have "\<not> prefix (getKey d []) e" if "path_ok e" for e
  proof
    assume "prefix (getKey d []) e"
    then obtain t where "e = getKey d [] @ t" by (auto simp: prefix_def)
    then have "hd e = hd (getKey d [])" using assms(1) by simp
    with that root_key_hd[OF assms(1)] show False by (simp add: path_ok_def)
  qed
  with ok show ?thesis by blast
qed

text \<open>
  An example of a listing: one file and one directory directly under \<^verbatim>\<open>/a\<close>.
\<close>

lemma example_list:
  "List example_driver ''/a''
     \<lparr>objects = [(''reg/a/f'', [1]), (''reg/a/sub/g'', [2]), (''reg/a/sub/h'', [2]), (''reg/b'', [3])],
      faults = [], calls = []\<rparr> =
   (Inr [''/a/f'', ''/a/sub''],
    \<lparr>objects = [(''reg/a/f'', [1]), (''reg/a/sub/g'', [2]), (''reg/a/sub/h'', [2]), (''reg/b'', [3])],
      faults = [], calls = [CallList ''reg/a/'' ''/'' [] 1000]\<rparr>)"
  apply (simp add: List_def Let_def example_key)
  apply (subst List_loop.simps)
  apply (simp add: bucket_List_nofault list_page_def matching_def entry_of_def Let_def
      example_key listMax_def called_def TrimSuffix_def HasSuffix_def suffix_to_prefix fsize_def)
  done


theorem List_entries_witness:
  "getKey example_driver [] \<noteq> [] \<and>
   path_ok (drop (length (getKey example_driver [])) ''reg/a/f'') \<and>
   path_ok (drop (length (getKey example_driver [])) ''reg/a/sub/g'') \<and>
   path_ok (drop (length (getKey example_driver [])) ''reg/a/sub/h'') \<and>
   path_ok (drop (length (getKey example_driver [])) ''reg/b'') \<and>
   path_ok ''/a'' \<and>
   List example_driver ''/a''
     \<lparr>objects = [(''reg/a/f'', [1]), (''reg/a/sub/g'', [2]), (''reg/a/sub/h'', [2]), (''reg/b'', [3])],
      faults = [], calls = []\<rparr> =
   (Inr [''/a/f'', ''/a/sub''],
    \<lparr>objects = [(''reg/a/f'', [1]), (''reg/a/sub/g'', [2]), (''reg/a/sub/h'', [2]), (''reg/b'', [3])],
      faults = [], calls = [CallList ''reg/a/'' ''/'' [] 1000]\<rparr>) \<and>
   path_ok ''/a/f'' \<and> path_ok ''/a/sub'' \<and>
   \<not> prefix (getKey example_driver []) ''/a/f'' \<and>
   \<not> prefix (getKey example_driver []) ''/a/sub'' \<and>
   prefix (getKey example_driver [] @ ''/a/f'') ''reg/a/f'' \<and>
   prefix (getKey example_driver [] @ ''/a/sub'') ''reg/a/sub/g''"
proof -
  let ?r = "\<lparr>objects = [(''reg/a/f'', [1 :: byte]), (''reg/a/sub/g'', [2]), (''reg/a/sub/h'', [2]),
                         (''reg/b'', [3])], faults = [], calls = []\<rparr>"
  have h1: "getKey example_driver [] \<noteq> []" by (simp add: example_key)
  have k: "path_ok (drop (length (getKey example_driver [])) ''reg/a/f'')"
    "path_ok (drop (length (getKey example_driver [])) ''reg/a/sub/g'')"
    "path_ok (drop (length (getKey example_driver [])) ''reg/a/sub/h'')"
    "path_ok (drop (length (getKey example_driver [])) ''reg/b'')"
    by (simp_all add: example_key path_ok_def sublist_code)
  have h2: "\<forall>k \<in> fst ` set (objects ?r).
      prefix (getKey example_driver [] @ ''/'') k \<longrightarrow>
      path_ok (drop (length (getKey example_driver [])) k)"
    using k by simp
  have p: "path_ok ''/a''" by (simp add: path_ok_def sublist_code)
  then have h3: "''/a'' = ''/'' \<or> path_ok ''/a''" by simp
  from List_entries[OF h1 h2 h3 example_list]
  have c: "path_ok ''/a/f'' \<and> path_ok ''/a/sub'' \<and>
      \<not> prefix (getKey example_driver []) ''/a/f'' \<and>
      \<not> prefix (getKey example_driver []) ''/a/sub''" by simp
  have q: "prefix (getKey example_driver [] @ ''/a/f'') ''reg/a/f''"
    "prefix (getKey example_driver [] @ ''/a/sub'') ''reg/a/sub/g''"
    by (simp_all add: example_key)
  show ?thesis using h1 k p example_list c q by blast
qed


text \<open>
  Without a fault the listing loop, and so List on a non-empty path, returns a list of
  entries.
\<close>

lemma List_loop_returns:
  assumes "faults r = []"
  shows "\<exists>entries r'. List_loop d dir rootPrefix marker files directories r = (Inr entries, r')"
  using assms
proof (induction d dir rootPrefix marker files directories r rule: List_loop.induct)
  case (1 d dir rootPrefix marker files directories r)
  obtain items dirs m where
    lp: "list_page (objects r) (getKey d dir) ''/'' marker listMax = (items, dirs, m)"
    by (metis prod.exhaust)
  let ?r1 = "called (CallList (getKey d dir) ''/'' marker listMax) r"
  let ?err = "if m = [] then Some EOF else None"
  have bl: "bucket_List (getKey d dir) ''/'' marker listMax r = ((items, dirs, m, ?err), ?r1)"
    using lp by (simp add: bucket_List_nofault[OF "1.prems"])
  have nofail: "\<not> (?err \<noteq> None \<and> ?err \<noteq> Some EOF)" by simp
  show ?case
  proof (cases "m = []")
    case True
    then show ?thesis using bl by (subst List_loop.simps) (simp add: Let_def)
  next
    case False
    have f1: "faults ?r1 = []" using "1.prems" by simp
    from "1.IH"[OF bl[symmetric] refl refl refl nofail refl refl False f1]
    show ?thesis using bl False by (subst List_loop.simps) (simp add: Let_def)
  qed
qed

lemma List_returns:
  assumes "faults r = []" and "path \<noteq> []"
  shows "\<exists>entries r'. List d path r = (Inr entries, r')"
  using assms(2) List_loop_returns[OF assms(1)] by (simp add: List_def Let_def)

end
